theory Spec2Isabelle
  imports Main "HOL-Library.Sublist"
begin

section \<open>Text: Python strings as lists of code points\<close>

text \<open>
  A Python \<open>str\<close> is a sequence of Unicode code points; a code point is a \<open>nat\<close>.
  The character classes of the program are written out in full, as Python 3.11
  (Unicode 14.0) has them: \<open>str.isspace\<close>, which is also the class \<open>\s\<close> of \<open>re\<close> on a
  \<open>str\<close> pattern; the line boundaries of \<open>str.splitlines\<close>; the class \<open>\d\<close>, the 660
  decimal digits of Unicode; and the characters that the letters of the program's
  patterns match under the flag \<open>(?i)\<close>.

  Three functions of the standard library work by tables that are not part of the
  program and are too large to write out: \<open>unicodedata.normalize('NFKC', t)\<close>,
  \<open>str.lower\<close> and \<open>str.upper\<close>. They are parameters: the record \<open>stdlib\<close> holds them,
  each definition that calls one of them takes the record, and a theorem about the
  program holds for every such record, so for Python's functions too.
\<close>

type_synonym ustring = "nat list"

record stdlib =
  normalize_NFKC :: "ustring \<Rightarrow> ustring"
  str_lower :: "ustring \<Rightarrow> ustring"
  str_upper :: "ustring \<Rightarrow> ustring"

definition ustr :: "string \<Rightarrow> ustring" where
  "ustr s = map of_char s"

definition is_space :: "nat \<Rightarrow> bool" where
  "is_space c \<longleftrightarrow>
     (9 \<le> c \<and> c \<le> 13) \<or> (28 \<le> c \<and> c \<le> 32) \<or> c = 133 \<or> c = 160 \<or> c = 5760 \<or>
     (8192 \<le> c \<and> c \<le> 8202) \<or> c = 8232 \<or> c = 8233 \<or> c = 8239 \<or> c = 8287 \<or> c = 12288"

definition is_linebreak :: "nat \<Rightarrow> bool" where
  "is_linebreak c \<longleftrightarrow>
     (10 \<le> c \<and> c \<le> 13) \<or> (28 \<le> c \<and> c \<le> 30) \<or> c = 133 \<or> c = 8232 \<or> c = 8233"

text \<open>The class \<open>\d\<close>: the code points of the general category \<open>Nd\<close>.\<close>

definition is_digit :: "nat \<Rightarrow> bool" where
  "is_digit c \<longleftrightarrow>
     (48 \<le> c \<and> c \<le> 57) \<or> (1632 \<le> c \<and> c \<le> 1641) \<or>
     (1776 \<le> c \<and> c \<le> 1785) \<or> (1984 \<le> c \<and> c \<le> 1993) \<or>
     (2406 \<le> c \<and> c \<le> 2415) \<or> (2534 \<le> c \<and> c \<le> 2543) \<or>
     (2662 \<le> c \<and> c \<le> 2671) \<or> (2790 \<le> c \<and> c \<le> 2799) \<or>
     (2918 \<le> c \<and> c \<le> 2927) \<or> (3046 \<le> c \<and> c \<le> 3055) \<or>
     (3174 \<le> c \<and> c \<le> 3183) \<or> (3302 \<le> c \<and> c \<le> 3311) \<or>
     (3430 \<le> c \<and> c \<le> 3439) \<or> (3558 \<le> c \<and> c \<le> 3567) \<or>
     (3664 \<le> c \<and> c \<le> 3673) \<or> (3792 \<le> c \<and> c \<le> 3801) \<or>
     (3872 \<le> c \<and> c \<le> 3881) \<or> (4160 \<le> c \<and> c \<le> 4169) \<or>
     (4240 \<le> c \<and> c \<le> 4249) \<or> (6112 \<le> c \<and> c \<le> 6121) \<or>
     (6160 \<le> c \<and> c \<le> 6169) \<or> (6470 \<le> c \<and> c \<le> 6479) \<or>
     (6608 \<le> c \<and> c \<le> 6617) \<or> (6784 \<le> c \<and> c \<le> 6793) \<or>
     (6800 \<le> c \<and> c \<le> 6809) \<or> (6992 \<le> c \<and> c \<le> 7001) \<or>
     (7088 \<le> c \<and> c \<le> 7097) \<or> (7232 \<le> c \<and> c \<le> 7241) \<or>
     (7248 \<le> c \<and> c \<le> 7257) \<or> (42528 \<le> c \<and> c \<le> 42537) \<or>
     (43216 \<le> c \<and> c \<le> 43225) \<or> (43264 \<le> c \<and> c \<le> 43273) \<or>
     (43472 \<le> c \<and> c \<le> 43481) \<or> (43504 \<le> c \<and> c \<le> 43513) \<or>
     (43600 \<le> c \<and> c \<le> 43609) \<or> (44016 \<le> c \<and> c \<le> 44025) \<or>
     (65296 \<le> c \<and> c \<le> 65305) \<or> (66720 \<le> c \<and> c \<le> 66729) \<or>
     (68912 \<le> c \<and> c \<le> 68921) \<or> (69734 \<le> c \<and> c \<le> 69743) \<or>
     (69872 \<le> c \<and> c \<le> 69881) \<or> (69942 \<le> c \<and> c \<le> 69951) \<or>
     (70096 \<le> c \<and> c \<le> 70105) \<or> (70384 \<le> c \<and> c \<le> 70393) \<or>
     (70736 \<le> c \<and> c \<le> 70745) \<or> (70864 \<le> c \<and> c \<le> 70873) \<or>
     (71248 \<le> c \<and> c \<le> 71257) \<or> (71360 \<le> c \<and> c \<le> 71369) \<or>
     (71472 \<le> c \<and> c \<le> 71481) \<or> (71904 \<le> c \<and> c \<le> 71913) \<or>
     (72016 \<le> c \<and> c \<le> 72025) \<or> (72784 \<le> c \<and> c \<le> 72793) \<or>
     (73040 \<le> c \<and> c \<le> 73049) \<or> (73120 \<le> c \<and> c \<le> 73129) \<or>
     (92768 \<le> c \<and> c \<le> 92777) \<or> (92864 \<le> c \<and> c \<le> 92873) \<or>
     (93008 \<le> c \<and> c \<le> 93017) \<or> (120782 \<le> c \<and> c \<le> 120831) \<or>
     (123200 \<le> c \<and> c \<le> 123209) \<or> (123632 \<le> c \<and> c \<le> 123641) \<or>
     (125264 \<le> c \<and> c \<le> 125273) \<or> (130032 \<le> c \<and> c \<le> 130041)"

text \<open>The class \<open>[0-9]\<close> and the class \<open>[ \t]\<close>.\<close>

definition is_ascii_digit :: "nat \<Rightarrow> bool" where
  "is_ascii_digit c \<longleftrightarrow> 48 \<le> c \<and> c \<le> 57"

definition is_blank :: "nat \<Rightarrow> bool" where
  "is_blank c \<longleftrightarrow> c = 32 \<or> c = 9"

text \<open>
  The flag \<open>(?i)\<close>. A letter \<open>A-Z\<close> or \<open>a-z\<close> of a pattern matches its two cases and,
  besides, \<open>i\<close> matches \<open>U+0130\<close> and \<open>U+0131\<close> (dotted capital and dotless small i),
  \<open>s\<close> matches \<open>U+017F\<close> (long s) and \<open>k\<close> matches \<open>U+212A\<close> (the Kelvin sign); each
  of these four matches what its letter matches. A digit matches itself only.
  \<open>ci_fold\<close> sends each of these characters to the small letter of its group, so that a
  pattern character of this kind matches a character exactly when the two have the same
  image. (A label of the program holds no other character: it is a match of
  \<open>\d+[A-Za-z]?\<close> or of \<open>[IVXLCM]+\<close> under \<open>(?i)\<close>.)
\<close>

definition ci_fold :: "nat \<Rightarrow> nat" where
  "ci_fold c =
     (if 65 \<le> c \<and> c \<le> 90 then c + 32
      else if c = 304 \<or> c = 305 then 105
      else if c = 383 then 115
      else if c = 8490 then 107
      else c)"

text \<open>The class \<open>[A-Za-z]\<close> under \<open>(?i)\<close>.\<close>

definition is_alpha :: "nat \<Rightarrow> bool" where
  "is_alpha c \<longleftrightarrow> 97 \<le> ci_fold c \<and> ci_fold c \<le> 122"

definition lstrip :: "ustring \<Rightarrow> ustring" where
  "lstrip t = dropWhile is_space t"

definition rstrip :: "ustring \<Rightarrow> ustring" where
  "rstrip t = rev (dropWhile is_space (rev t))"

definition strip :: "ustring \<Rightarrow> ustring" where
  "strip t = rstrip (lstrip t)"

text \<open>\<open>needle in hay\<close> and \<open>hay.startswith(needle)\<close>.\<close>

fun contains :: "ustring \<Rightarrow> ustring \<Rightarrow> bool" where
  "contains needle [] = (needle = [])"
| "contains needle (c # cs) = (prefix needle (c # cs) \<or> contains needle cs)"

definition startswith :: "ustring \<Rightarrow> ustring \<Rightarrow> bool" where
  "startswith hay needle = prefix needle hay"

text \<open>
  \<open>str.splitlines()\<close>: a line ends at a line boundary, \<open>\r\n\<close> is one boundary, the
  boundaries are dropped, and a text that ends with a boundary has no empty last line.
\<close>

fun splitlines_from :: "ustring \<Rightarrow> ustring \<Rightarrow> ustring list" where
  "splitlines_from cur [] = (if cur = [] then [] else [cur])"
| "splitlines_from cur (c # cs) =
     (if c = 13 \<and> (case cs of [] \<Rightarrow> False | d # _ \<Rightarrow> d = 10)
      then cur # splitlines_from [] (tl cs)
      else if is_linebreak c then cur # splitlines_from [] cs
      else splitlines_from (cur @ [c]) cs)"

definition splitlines :: "ustring \<Rightarrow> ustring list" where
  "splitlines t = splitlines_from [] t"

text \<open>\<open>"\n".join(lines)\<close>.\<close>

fun join_nl :: "ustring list \<Rightarrow> ustring" where
  "join_nl [] = []"
| "join_nl [l] = l"
| "join_nl (l # ls) = l @ 10 # join_nl ls"

text \<open>Python's slice \<open>t[s:e]\<close> for \<open>0 \<le> s\<close> and \<open>0 \<le> e\<close>.\<close>

definition slice :: "ustring \<Rightarrow> nat \<Rightarrow> nat \<Rightarrow> ustring" where
  "slice t s e = take (e - s) (drop s t)"

section \<open>Regular expressions\<close>

text \<open>
  A pattern is modelled by its matcher: given whether the position is at the start of a
  line (for \<open>^\<close> under the flag \<open>(?m)\<close>: the start of the text or just after \<open>\n\<close>) and
  the text from the position on, it returns the length of the match that Python's
  backtracking engine finds there and the text of group 1 (empty when the pattern
  has no group), or \<open>None\<close>. None of the program's patterns matches the empty text
  (lemmas \<open>hyphen_break_valid\<close> to \<open>pasal_header_valid\<close>).

  \<open>re_scan\<close> is the scan shared by \<open>sub\<close>, \<open>split\<close> and \<open>finditer\<close>: from left to right,
  the leftmost match is taken and the scan goes on at its end; a position with no match
  is passed over.
\<close>

type_synonym matcher = "bool \<Rightarrow> ustring \<Rightarrow> (nat \<times> ustring) option"

datatype seg = Lit nat | Hit ustring ustring

fun re_scan :: "matcher \<Rightarrow> bool \<Rightarrow> ustring \<Rightarrow> seg list" where
  "re_scan m bol [] = []"
| "re_scan m bol (c # cs) =
     (case m bol (c # cs) of
        None \<Rightarrow> Lit c # re_scan m (c = 10) cs
      | Some (n, g) \<Rightarrow>
          if 0 < n \<and> n \<le> Suc (length cs)
          then Hit (take n (c # cs)) g
                 # re_scan m (last (take n (c # cs)) = 10) (drop n (c # cs))
          else Lit c # re_scan m (c = 10) cs)"

text \<open>\<open>re.sub(pattern, repl, t)\<close> with a replacement that has no group reference.\<close>

fun sub_seg :: "ustring \<Rightarrow> seg \<Rightarrow> ustring" where
  "sub_seg repl (Lit c) = [c]"
| "sub_seg repl (Hit w g) = repl"

definition re_sub :: "matcher \<Rightarrow> ustring \<Rightarrow> ustring \<Rightarrow> ustring" where
  "re_sub m repl t = concat (map (sub_seg repl) (re_scan m True t))"

text \<open>
  \<open>pattern.split(t)\<close> for a pattern with one group: the texts between the matches,
  with the group of each match between them.
\<close>

fun split_segs :: "ustring \<Rightarrow> seg list \<Rightarrow> ustring list" where
  "split_segs cur [] = [cur]"
| "split_segs cur (Lit c # ss) = split_segs (cur @ [c]) ss"
| "split_segs cur (Hit w g # ss) = cur # g # split_segs [] ss"

definition re_split :: "matcher \<Rightarrow> ustring \<Rightarrow> ustring list" where
  "re_split m t = split_segs [] (re_scan m True t)"

text \<open>\<open>pattern.finditer(t)\<close>: for each match its start, its end and its group 1.\<close>

fun seg_spans :: "nat \<Rightarrow> seg list \<Rightarrow> (nat \<times> nat \<times> ustring) list" where
  "seg_spans pos [] = []"
| "seg_spans pos (Lit c # ss) = seg_spans (Suc pos) ss"
| "seg_spans pos (Hit w g # ss) = (pos, pos + length w, g) # seg_spans (pos + length w) ss"

definition re_finditer :: "matcher \<Rightarrow> ustring \<Rightarrow> (nat \<times> nat \<times> ustring) list" where
  "re_finditer m t = seg_spans 0 (re_scan m True t)"

subsection \<open>Pieces of patterns\<close>

definition skip_ws :: "ustring \<Rightarrow> ustring" where
  "skip_ws t = dropWhile is_space t"

fun expect :: "nat \<Rightarrow> ustring \<Rightarrow> ustring option" where
  "expect c [] = None"
| "expect c (d # ds) = (if c = d then Some ds else None)"

text \<open>A literal under the flag \<open>(?i)\<close>.\<close>

fun expect_ci :: "ustring \<Rightarrow> ustring \<Rightarrow> ustring option" where
  "expect_ci [] t = Some t"
| "expect_ci (p # ps) [] = None"
| "expect_ci (p # ps) (c # cs) =
     (if ci_fold p = ci_fold c then expect_ci ps cs else None)"

text \<open>
  \<open>\s*$\<close> under \<open>(?m)\<close>: \<open>\s*\<close> first takes the whole run of \<open>k\<close> whitespace characters
  and gives them back one by one until \<open>$\<close> holds (at the end of the text or before
  \<open>\n\<close>). The result is the number of characters consumed.
\<close>

definition at_eol :: "ustring \<Rightarrow> bool" where
  "at_eol r = (case r of [] \<Rightarrow> True | c # _ \<Rightarrow> c = 10)"

fun eol_backtrack :: "nat \<Rightarrow> ustring \<Rightarrow> nat option" where
  "eol_backtrack 0 t = (if at_eol t then Some 0 else None)"
| "eol_backtrack (Suc k) t =
     (if at_eol (drop (Suc k) t) then Some (Suc k) else eol_backtrack k t)"

definition ws_eol :: "ustring \<Rightarrow> nat option" where
  "ws_eol t = eol_backtrack (length (takeWhile is_space t)) t"

subsection \<open>The patterns of the program\<close>

text \<open>\<open>-\n\s*\<close>\<close>

fun hyphen_break_re :: matcher where
  "hyphen_break_re bol (c # d # cs) =
     (if c = 45 \<and> d = 10 then Some (2 + length (takeWhile is_space cs), []) else None)"
| "hyphen_break_re bol t = None"

text \<open>\<open>\s*\.\s*\.\s*\.\s*\<close>\<close>

definition ellipsis_re :: matcher where
  "ellipsis_re bol t =
     (case expect 46 (skip_ws t) of None \<Rightarrow> None | Some r1 \<Rightarrow>
     (case expect 46 (skip_ws r1) of None \<Rightarrow> None | Some r2 \<Rightarrow>
     (case expect 46 (skip_ws r2) of None \<Rightarrow> None | Some r3 \<Rightarrow>
        Some (length t - length (skip_ws r3), []))))"

text \<open>\<open>\n{4,}\<close>, \<open>[ \t]{2,}\<close> and \<open>[ \t]+\<close>\<close>

definition run_re :: "(nat \<Rightarrow> bool) \<Rightarrow> nat \<Rightarrow> matcher" where
  "run_re cls least bol t =
     (let n = length (takeWhile cls t) in if least \<le> n then Some (n, []) else None)"

definition newlines4_re :: matcher where
  "newlines4_re = run_re (\<lambda>c. c = 10) 4"

definition blanks2_re :: matcher where
  "blanks2_re = run_re is_blank 2"

definition blanks1_re :: matcher where
  "blanks1_re = run_re is_blank 1"

text \<open>\<open>AYAT_SPLIT_RE = \(\s*(\d+)\s*\)\<close>\<close>

definition AYAT_SPLIT_RE :: matcher where
  "AYAT_SPLIT_RE bol t =
     (case expect 40 t of None \<Rightarrow> None | Some r1 \<Rightarrow>
       (let r2 = skip_ws r1; ds = takeWhile is_digit r2 in
        if ds = [] then None
        else (case expect 41 (skip_ws (dropWhile is_digit r2)) of
                None \<Rightarrow> None
              | Some r3 \<Rightarrow> Some (length t - length r3, ds))))"

text \<open>
  \<open>PASAL_ANY_RE = (?im)^\s*Pasal\s+((\d+[A-Za-z]?)|([IVXLCM]+))\s*$\<close>.
  The greedy runs \<open>\s*\<close>, \<open>\s+\<close>, \<open>\d+\<close> and \<open>[IVXLCM]+\<close> are each followed by a
  character outside their class, so giving characters back cannot help and only the
  longest run is tried; the same holds for the optional letter, after which \<open>\s*$\<close>
  needs whitespace or the end of the line. The alternatives start with a digit and
  with a letter, so at most one applies. \<open>is_roman_pasal\<close> is the class \<open>[IVXLCM]\<close>
  under \<open>(?i)\<close>.
\<close>

definition is_roman_pasal :: "nat \<Rightarrow> bool" where
  "is_roman_pasal c \<longleftrightarrow> ci_fold c \<in> set (ustr ''ivxlcm'')"

definition pasal_number_alt :: "ustring \<Rightarrow> (ustring \<times> ustring) option" where
  "pasal_number_alt r =
     (let ds = takeWhile is_digit r; r' = dropWhile is_digit r in
      if ds \<noteq> [] then
        (case r' of
           [] \<Rightarrow> Some (ds, [])
         | c # cs \<Rightarrow> if is_alpha c then Some (ds @ [c], cs) else Some (ds, r'))
      else
        (let rs = takeWhile is_roman_pasal r in
         if rs \<noteq> [] then Some (rs, dropWhile is_roman_pasal r) else None))"

definition PASAL_ANY_RE :: matcher where
  "PASAL_ANY_RE bol t =
     (if \<not> bol then None
      else case expect_ci (ustr ''Pasal'') (skip_ws t) of None \<Rightarrow> None | Some r1 \<Rightarrow>
        if takeWhile is_space r1 = [] then None
        else (case pasal_number_alt (skip_ws r1) of None \<Rightarrow> None | Some (lbl, r3) \<Rightarrow>
               (case ws_eol r3 of None \<Rightarrow> None | Some k \<Rightarrow>
                  Some (length t - length r3 + k, lbl))))"

text \<open>
  The header pattern of \<open>detect_structure\<close>:
  \<open>(?im)^\s*Pasal\s+\<close> + \<open>re.escape(pasal_label)\<close> + \<open>\s*$\<close>.
\<close>

definition pasal_header_re :: "ustring \<Rightarrow> matcher" where
  "pasal_header_re lbl bol t =
     (if \<not> bol then None
      else case expect_ci (ustr ''Pasal'') (skip_ws t) of None \<Rightarrow> None | Some r1 \<Rightarrow>
        if takeWhile is_space r1 = [] then None
        else (case expect_ci lbl (skip_ws r1) of None \<Rightarrow> None | Some r3 \<Rightarrow>
               (case ws_eol r3 of None \<Rightarrow> None | Some k \<Rightarrow>
                  Some (length t - length r3 + k, []))))"

text \<open>
  \<open>BUKU_RE\<close>, \<open>BAB_RE\<close> and \<open>BAGIAN_RE\<close>, used with \<open>.match(ln)\<close> (at the start of the
  line only): \<open>(?im)^\s*KEYWORD\s+(numeral+)\s*(.*)$\<close>. The result is groups 1 and 2.
  After the numeral the rest of the pattern always matches. \<open>is_roman\<close> is the class
  \<open>[IVXLC]\<close> and \<open>is_roman_or_digit\<close> the class \<open>[0-9IVXLC]\<close>, both under \<open>(?i)\<close>.
\<close>

definition is_roman :: "nat \<Rightarrow> bool" where
  "is_roman c \<longleftrightarrow> ci_fold c \<in> set (ustr ''ivxlc'')"

definition is_roman_or_digit :: "nat \<Rightarrow> bool" where
  "is_roman_or_digit c \<longleftrightarrow> is_ascii_digit c \<or> is_roman c"

definition mark_match :: "ustring \<Rightarrow> (nat \<Rightarrow> bool) \<Rightarrow> ustring \<Rightarrow> (ustring \<times> ustring) option" where
  "mark_match kw cls ln =
     (case expect_ci kw (skip_ws ln) of None \<Rightarrow> None | Some r1 \<Rightarrow>
        if takeWhile is_space r1 = [] then None
        else (let r2 = skip_ws r1; g1 = takeWhile cls r2 in
              if g1 = [] then None
              else Some (g1, takeWhile (\<lambda>c. c \<noteq> 10) (skip_ws (dropWhile cls r2)))))"

definition BUKU_RE :: "ustring \<Rightarrow> (ustring \<times> ustring) option" where
  "BUKU_RE = mark_match (ustr ''BUKU'') is_roman"

definition BAB_RE :: "ustring \<Rightarrow> (ustring \<times> ustring) option" where
  "BAB_RE = mark_match (ustr ''BAB'') is_roman"

definition BAGIAN_RE :: "ustring \<Rightarrow> (ustring \<times> ustring) option" where
  "BAGIAN_RE = mark_match (ustr ''Bagian'') is_roman_or_digit"

section \<open>Structure detection\<close>

type_synonym tag = "ustring \<times> ustring \<times> ustring"

record block =
  blk_pasal_number :: ustring
  blk_text :: ustring
  blk_buku :: "tag option"
  blk_bab :: "tag option"
  blk_bagian :: "tag option"

text \<open>\<open>line_starts\<close>: each line is taken to end with one character.\<close>

fun line_starts_from :: "nat \<Rightarrow> ustring list \<Rightarrow> nat list" where
  "line_starts_from pos [] = []"
| "line_starts_from pos (ln # lns) = pos # line_starts_from (pos + length ln + 1) lns"

text \<open>The marks of one kind: the lines that the kind's pattern matches, in order.\<close>

fun collect_marks ::
  "(ustring \<Rightarrow> (ustring \<times> ustring) option) \<Rightarrow> ustring \<Rightarrow> (nat \<times> ustring) list
     \<Rightarrow> (nat \<times> tag) list" where
  "collect_marks re kind [] = []"
| "collect_marks re kind ((p, ln) # rest) =
     (case re ln of
        None \<Rightarrow> collect_marks re kind rest
      | Some (g1, g2) \<Rightarrow> (p, (kind, strip g1, strip g2)) # collect_marks re kind rest)"

fun nearest_tag_from :: "tag option \<Rightarrow> nat \<Rightarrow> (nat \<times> tag) list \<Rightarrow> tag option" where
  "nearest_tag_from prev idx [] = prev"
| "nearest_tag_from prev idx ((p, tg) # marks) =
     (if p \<le> idx then nearest_tag_from (Some tg) idx marks else prev)"

definition nearest_tag :: "nat \<Rightarrow> (nat \<times> tag) list \<Rightarrow> tag option" where
  "nearest_tag idx marks = nearest_tag_from None idx marks"

text \<open>
  The loop over \<open>matches\<close>: the start of each block is the start of its match, its end
  is the start of the next match, or the length of the text for the last one.
\<close>

fun block_spans :: "(nat \<times> nat \<times> ustring) list \<Rightarrow> nat \<Rightarrow> (nat \<times> nat \<times> ustring) list" where
  "block_spans [] n = []"
| "block_spans [(s, e, g)] n = [(s, n, strip g)]"
| "block_spans ((s, e, g) # (s', m') # ms) n = (s, s', strip g) # block_spans ((s', m') # ms) n"

definition article_spans :: "ustring \<Rightarrow> (nat \<times> nat \<times> ustring) list" where
  "article_spans full_text = block_spans (re_finditer PASAL_ANY_RE full_text) (length full_text)"

definition block_body :: "ustring \<Rightarrow> nat \<Rightarrow> nat \<Rightarrow> ustring \<Rightarrow> ustring" where
  "block_body full_text start end' pasal_label =
     (let body = strip (slice full_text start end');
          body = strip (re_sub (pasal_header_re pasal_label) [] body)
      in re_sub blanks1_re [32] body)"

definition detect_structure :: "ustring \<Rightarrow> block list" where
  "detect_structure full_text =
     (let lines = splitlines full_text;
          numbered = zip (line_starts_from 0 lines) lines;
          buku_marks = collect_marks BUKU_RE (ustr ''BUKU'') numbered;
          bab_marks = collect_marks BAB_RE (ustr ''BAB'') numbered;
          bagian_marks = collect_marks BAGIAN_RE (ustr ''BAGIAN'') numbered
      in map (\<lambda>(start, end', pasal_label).
                \<lparr> blk_pasal_number = pasal_label,
                  blk_text = block_body full_text start end' pasal_label,
                  blk_buku = nearest_tag start buku_marks,
                  blk_bab = nearest_tag start bab_marks,
                  blk_bagian = nearest_tag start bagian_marks \<rparr>)
             (article_spans full_text))"

section \<open>Minimal cleaning\<close>

text \<open>
  \<open>minimal_clean\<close>, statement by statement; \<open>normalize_NFKC L\<close> is
  \<open>unicodedata.normalize('NFKC', t)\<close>.
\<close>

definition minimal_clean :: "stdlib \<Rightarrow> ustring \<Rightarrow> ustring" where
  "minimal_clean L t =
     (let t = filter (\<lambda>c. c \<noteq> 0) t;
          t = normalize_NFKC L t;
          t = re_sub hyphen_break_re [] t;
          t = re_sub ellipsis_re [8230] t;
          lines = map rstrip (splitlines t);
          text = join_nl lines;
          text = re_sub newlines4_re [10, 10] text;
          text = re_sub blanks2_re [32] text
      in strip text)"

text \<open>The guard \<open>if t is None: return t\<close>.\<close>

definition minimal_clean_opt :: "stdlib \<Rightarrow> ustring option \<Rightarrow> ustring option" where
  "minimal_clean_opt L t = (case t of None \<Rightarrow> None | Some s \<Rightarrow> Some (minimal_clean L s))"

section \<open>Records\<close>

record cfg =
  cfg_pdf :: ustring
  cfg_uu_code :: "ustring option"
  cfg_uu_name :: "ustring option"
  cfg_uu_number :: "ustring option"
  cfg_year :: "int option"
  cfg_valid_from :: "ustring option"
  cfg_valid_to :: "ustring option"

record row =
  uu_code :: "ustring option"
  uu_name :: "ustring option"
  uu_number :: "ustring option"
  year :: "int option"
  section_type :: ustring
  title :: ustring
  pasal_number :: ustring
  ayat_number :: "ustring option"
  buku :: "ustring option"
  bab :: "ustring option"
  bagian :: "ustring option"
  valid_from :: "ustring option"
  valid_to :: "ustring option"
  source_file :: ustring
  text_body :: ustring

text \<open>\<open>Path(p).name\<close>: the last component of a POSIX path.\<close>

fun split_slash :: "ustring \<Rightarrow> ustring \<Rightarrow> ustring list" where
  "split_slash cur [] = [cur]"
| "split_slash cur (c # cs) =
     (if c = 47 then cur # split_slash [] cs else split_slash (cur @ [c]) cs)"

definition path_name :: "ustring \<Rightarrow> ustring" where
  "path_name p =
     (let parts = filter (\<lambda>s. s \<noteq> [] \<and> s \<noteq> [46]) (split_slash [] p)
      in if parts = [] then [] else last parts)"

definition tag_label :: "tag option \<Rightarrow> ustring option" where
  "tag_label obj = (case obj of None \<Rightarrow> None | Some (kind, label, ttl) \<Rightarrow> Some label)"

definition build_record :: "stdlib \<Rightarrow> cfg \<Rightarrow> block \<Rightarrow> row" where
  "build_record L c blk =
     \<lparr> uu_code = cfg_uu_code c,
       uu_name = cfg_uu_name c,
       uu_number = cfg_uu_number c,
       year = cfg_year c,
       section_type = ustr ''PASAL'',
       title = ustr ''Pasal '' @ blk_pasal_number blk,
       pasal_number = blk_pasal_number blk,
       ayat_number = None,
       buku = tag_label (blk_buku blk),
       bab = tag_label (blk_bab blk),
       bagian = tag_label (blk_bagian blk),
       valid_from = cfg_valid_from c,
       valid_to = cfg_valid_to c,
       source_file = path_name (cfg_pdf c),
       text_body = minimal_clean L (blk_text blk) \<rparr>"

text \<open>The loop \<open>for blk in blocks: ... records.append(rec)\<close>.\<close>

fun build_loop :: "stdlib \<Rightarrow> cfg \<Rightarrow> block list \<Rightarrow> row list \<Rightarrow> row list" where
  "build_loop L c [] records = records"
| "build_loop L c (blk # blocks) records =
     build_loop L c blocks (records @ [build_record L c blk])"

text \<open>
  \<open>build_records_per_pdf\<close>, from the text that \<open>read_pdf_text\<close> returned for the
  document.
\<close>

definition build_records_per_pdf :: "stdlib \<Rightarrow> cfg \<Rightarrow> ustring \<Rightarrow> row list" where
  "build_records_per_pdf L c raw_text =
     (if raw_text = [] \<or> strip raw_text = [] then []
      else build_loop L c (detect_structure raw_text) [])"

section \<open>Explosion of Pasal rows into Ayat rows\<close>

datatype error = IndexError

text \<open>\<open>parts[i]\<close> for \<open>0 \<le> i\<close>: an index out of range raises.\<close>

definition py_index :: "'a list \<Rightarrow> nat \<Rightarrow> error + 'a" where
  "py_index xs i = (if i < length xs then Inr (xs ! i) else Inl IndexError)"

text \<open>\<open>pd.isna(r.get("ayat_number")) or str(r.get("ayat_number")) in ("", "nan")\<close>\<close>

definition ayat_is_empty :: "ustring option \<Rightarrow> bool" where
  "ayat_is_empty a = (case a of None \<Rightarrow> True | Some s \<Rightarrow> s = [] \<or> s = ustr ''nan'')"

text \<open>The loop \<open>for i in range(1, len(parts), 2)\<close>, from index \<open>i\<close> on.\<close>

function explode_loop :: "row \<Rightarrow> ustring list \<Rightarrow> nat \<Rightarrow> error + row list" where
  "explode_loop r parts i =
     (if i < length parts then
        (case py_index parts i of Inl e \<Rightarrow> Inl e | Inr p \<Rightarrow>
        (case py_index parts (i + 1) of Inl e \<Rightarrow> Inl e | Inr q \<Rightarrow>
           (let ay = strip p; body = strip q in
            case explode_loop r parts (i + 2) of Inl e \<Rightarrow> Inl e | Inr rest \<Rightarrow>
              if body = [] then Inr rest
              else Inr (r\<lparr>section_type := ustr ''AYAT'', ayat_number := Some ay,
                          text_body := body\<rparr> # rest))))
      else Inr [])"
  by pat_completeness auto
termination
  by (relation "measure (\<lambda>(r, parts, i). length parts - i)") auto

declare explode_loop.simps [simp del]

text \<open>The body of the loop over the rows: the rows that one row adds to \<open>rows\<close>.\<close>

definition explode_row :: "stdlib \<Rightarrow> row \<Rightarrow> error + row list" where
  "explode_row L r =
     (let text = strip (text_body r);
          sect = str_upper L (section_type r)
      in if sect = ustr ''PASAL'' \<and> ayat_is_empty (ayat_number r) then
           (let parts = re_split AYAT_SPLIT_RE text
            in if length parts > 1 then explode_loop r parts 1 else Inr [r])
         else Inr [r])"

fun explode_ayat_rows_df :: "stdlib \<Rightarrow> row list \<Rightarrow> error + row list" where
  "explode_ayat_rows_df L [] = Inr []"
| "explode_ayat_rows_df L (r # df) =
     (case explode_row L r of Inl e \<Rightarrow> Inl e | Inr out \<Rightarrow>
     (case explode_ayat_rows_df L df of Inl e \<Rightarrow> Inl e | Inr rest \<Rightarrow> Inr (out @ rest)))"

section \<open>Dropping the Penjelasan rows\<close>

definition is_penjelasan :: "stdlib \<Rightarrow> row \<Rightarrow> bool" where
  "is_penjelasan L r =
     (let text = str_lower L (strip (text_body r));
          ttl = str_lower L (title r)
      in if startswith text (ustr ''cukup jelas'') then True
         else if contains (ustr ''penjelasan'') ttl then True
         else False)"

definition drop_penjelasan_df :: "stdlib \<Rightarrow> row list \<Rightarrow> row list" where
  "drop_penjelasan_df L df = filter (\<lambda>r. \<not> is_penjelasan L r) df"

section \<open>The main flow\<close>

text \<open>
  \<open>.astype(str).str.replace(r"\.0$", "", regex=True)\<close>: \<open>None\<close> becomes the text
  \<open>None\<close>; \<open>$\<close> holds at the end of the text and before a last \<open>\n\<close>.
\<close>

definition drop_dot0 :: "ustring \<Rightarrow> ustring" where
  "drop_dot0 s =
     (if suffix [46, 48, 10] s then take (length s - 3) s @ [10]
      else if suffix [46, 48] s then take (length s - 2) s
      else s)"

definition astype_str :: "ustring option \<Rightarrow> ustring" where
  "astype_str v = (case v of None \<Rightarrow> ustr ''None'' | Some s \<Rightarrow> s)"

definition normalize_numbers :: "row \<Rightarrow> row" where
  "normalize_numbers r =
     r\<lparr>pasal_number := drop_dot0 (pasal_number r),
       ayat_number := Some (drop_dot0 (astype_str (ayat_number r)))\<rparr>"

text \<open>
  \<open>main\<close>, from the documents that exist with the text extracted from each, to the
  rows that are written.
\<close>

definition main_flow :: "stdlib \<Rightarrow> (cfg \<times> ustring) list \<Rightarrow> error + row list" where
  "main_flow L docs =
     (let all_records = concat (map (\<lambda>(c, raw_text). build_records_per_pdf L c raw_text) docs)
      in if all_records = [] then Inr []
         else (case explode_ayat_rows_df L all_records of
                 Inl e \<Rightarrow> Inl e
               | Inr df \<Rightarrow> Inr (drop_penjelasan_df L (map normalize_numbers df))))"

section \<open>Notions used in the proofs\<close>

text \<open>
  No two neighbours in a text are related by \<open>R\<close>; every run of characters of a class is
  shorter than \<open>k\<close>; a whitespace character other than \<open>\n\<close> stands before \<open>\n\<close>; a text
  whose only line boundary is \<open>\n\<close>; a text without whitespace at its ends.
\<close>

fun no_adjacent :: "(nat \<Rightarrow> nat \<Rightarrow> bool) \<Rightarrow> ustring \<Rightarrow> bool" where
  "no_adjacent R (a # b # cs) = (\<not> R a b \<and> no_adjacent R (b # cs))"
| "no_adjacent R [a] = True"
| "no_adjacent R [] = True"

definition short_runs :: "(nat \<Rightarrow> bool) \<Rightarrow> nat \<Rightarrow> ustring \<Rightarrow> bool" where
  "short_runs P k x \<longleftrightarrow> (\<forall>s. suffix s x \<longrightarrow> length (takeWhile P s) < k)"

definition space_before_nl :: "nat \<Rightarrow> nat \<Rightarrow> bool" where
  "space_before_nl a b \<longleftrightarrow> b = 10 \<and> is_space a \<and> a \<noteq> 10"

definition only_nl :: "ustring \<Rightarrow> bool" where
  "only_nl x \<longleftrightarrow> (\<forall>c\<in>set x. is_linebreak c \<longrightarrow> c = 10)"

definition trimmed :: "ustring \<Rightarrow> bool" where
  "trimmed x \<longleftrightarrow> x = [] \<or> (\<not> is_space (hd x) \<and> \<not> is_space (last x))"

text \<open>
  The text without its whitespace; a text whose first three characters other than
  whitespace are full stops; the text in which, from the left, each three full stops in a
  row have become an ellipsis, and the text in which each ellipsis has become three full
  stops; whitespace before and after an ellipsis; a text in which writing the ellipses
  as full stops gives three full stops in a row only where an ellipsis stands.
\<close>

definition nonspace :: "ustring \<Rightarrow> ustring" where
  "nonspace x = filter (\<lambda>c. \<not> is_space c) x"

definition dots3 :: "ustring \<Rightarrow> bool" where
  "dots3 s \<longleftrightarrow> prefix [46, 46, 46] (nonspace s)"

fun collapse3 :: "ustring \<Rightarrow> ustring" where
  "collapse3 (a # b # c # r) =
     (if a = 46 \<and> b = 46 \<and> c = 46 then 8230 # collapse3 r else a # collapse3 (b # c # r))"
| "collapse3 [a, b] = [a, b]"
| "collapse3 [a] = [a]"
| "collapse3 [] = []"

definition space_before_ellipsis :: "nat \<Rightarrow> nat \<Rightarrow> bool" where
  "space_before_ellipsis a b \<longleftrightarrow> is_space a \<and> b = 8230"

definition space_after_ellipsis :: "nat \<Rightarrow> nat \<Rightarrow> bool" where
  "space_after_ellipsis a b \<longleftrightarrow> a = 8230 \<and> is_space b"

definition expand_ellipsis :: "ustring \<Rightarrow> ustring" where
  "expand_ellipsis x = concat (map (\<lambda>c. if c = 8230 then [46, 46, 46] else [c]) x)"

definition settled :: "ustring \<Rightarrow> bool" where
  "settled k \<longleftrightarrow>
     (\<forall>s. suffix s k \<longrightarrow> s \<noteq> [] \<longrightarrow> hd s \<noteq> 8230 \<longrightarrow> \<not> prefix [46, 46, 46] (expand_ellipsis s))"

text \<open>
  Spans of matches, each not empty, none starting before the one before it ends, the
  last ending within the length \<open>n\<close>.
\<close>

fun chained :: "(nat \<times> nat \<times> ustring) list \<Rightarrow> nat \<Rightarrow> bool" where
  "chained [] n = True"
| "chained [(s, e, g)] n = (s < e \<and> e \<le> n)"
| "chained ((s, e, g) # (s', m') # ms) n = (s < e \<and> e \<le> s' \<and> chained ((s', m') # ms) n)"

text \<open>
  What the explosion of a row is to give, said on the parts after the first (a marker's
  digits, the run after the marker, the next marker's digits, and so on): for each
  marker in order one Ayat row with the digits and the trimmed run, and none for a run
  that is blank.
\<close>

fun ayat_rows :: "row \<Rightarrow> ustring list \<Rightarrow> row list" where
  "ayat_rows r (ay # body # rest) =
     (if strip body = [] then ayat_rows r rest
      else r\<lparr>section_type := ustr ''AYAT'', ayat_number := Some (strip ay),
                text_body := strip body\<rparr> # ayat_rows r rest)"
| "ayat_rows r [ay] = []"
| "ayat_rows r [] = []"

section \<open>Example inputs\<close>

text \<open>
  The library on the texts of the examples. The examples are texts of ASCII characters,
  and for \<open>NFKC\<close> also of the no-break space, the ellipsis, the ligatures fi and fl and
  the fullwidth forms \<open>U+FF01\<close> to \<open>U+FF5E\<close>. On a text of these characters \<open>NFKC\<close>
  replaces each character by its compatibility equivalent and does nothing else, and on
  a text of ASCII characters \<open>str.lower\<close> and \<open>str.upper\<close> map the letters \<open>A-Z\<close> and
  \<open>a-z\<close>. \<open>example_lib\<close> has these values; it stands for the library in the examples
  only, and no theorem about the program is proved from it.
\<close>

definition example_nfkc_char :: "nat \<Rightarrow> ustring" where
  "example_nfkc_char c =
     (if c = 160 then [32]
      else if c = 8230 then [46, 46, 46]
      else if c = 64257 then [102, 105]
      else if c = 64258 then [102, 108]
      else if 65281 \<le> c \<and> c \<le> 65374 then [c - 65248]
      else [c])"

definition example_lib :: stdlib where
  "example_lib =
     \<lparr> normalize_NFKC = (\<lambda>t. concat (map example_nfkc_char t)),
       str_lower = map (\<lambda>c. if 65 \<le> c \<and> c \<le> 90 then c + 32 else c),
       str_upper = map (\<lambda>c. if 97 \<le> c \<and> c \<le> 122 then c - 32 else c) \<rparr>"

definition cfg_x :: cfg where
  "cfg_x = \<lparr> cfg_pdf = ustr ''pdf/x.pdf'', cfg_uu_code = Some (ustr ''X''),
             cfg_uu_name = None, cfg_uu_number = None, cfg_year = Some 2023,
             cfg_valid_from = None, cfg_valid_to = None \<rparr>"

text \<open>A Pasal row of \<open>Pasal 1\<close> with the given text and no ayat number.\<close>

definition pasal_row :: "ustring \<Rightarrow> row" where
  "pasal_row body =
     \<lparr> uu_code = Some (ustr ''X''), uu_name = None, uu_number = None, year = Some 2023,
       section_type = ustr ''PASAL'', title = ustr ''Pasal 1'', pasal_number = ustr ''1'',
       ayat_number = None, buku = None, bab = None, bagian = None,
       valid_from = None, valid_to = None, source_file = ustr ''x.pdf'',
       text_body = body \<rparr>"

section \<open>Properties\<close>

subsection \<open>Record builder and filter\<close>

lemma build_loop_map:
  "build_loop L c blocks records = records @ map (build_record L c) blocks"
  by (induction blocks arbitrary: records) simp_all

lemma contains_sublist: "contains n h \<longleftrightarrow> sublist n h"
  by (induction h) (auto simp: sublist_Cons_right)

text \<open>
  Claim C7. The filter drops a row exactly when its lower-cased title has \<open>penjelasan\<close>
  as a substring or its trimmed, lower-cased text has \<open>cukup jelas\<close> as a prefix; the
  other rows are kept in their order. Lower-casing is \<open>str.lower\<close>.
\<close>

theorem drop_penjelasan_filter:
  "drop_penjelasan_df L df =
     filter (\<lambda>r. \<not> (sublist (ustr ''penjelasan'') (str_lower L (title r)) \<or>
                      prefix (ustr ''cukup jelas'') (str_lower L (strip (text_body r))))) df"
  unfolding drop_penjelasan_df_def is_penjelasan_def startswith_def Let_def
  by (rule filter_cong) (auto simp: contains_sublist)

subsection \<open>Exploder\<close>

lemmas text_defs = ustr_def is_space_def is_digit_def strip_def lstrip_def rstrip_def skip_ws_def
  example_lib_def example_nfkc_char_def

lemmas ayat_defs = pasal_row_def re_finditer_def re_split_def AYAT_SPLIT_RE_def
  explode_row_def ayat_is_empty_def py_index_def

lemma split_segs_length: "length (split_segs cur segs) = 2 * length (seg_spans pos segs) + 1"
  by (induction cur segs arbitrary: pos rule: split_segs.induct) simp_all

lemma re_split_length: "length (re_split m t) = 2 * length (re_finditer m t) + 1"
  by (simp add: re_split_def re_finditer_def split_segs_length[of _ _ 0])

text \<open>The loop never indexes out of range, and it gives the rows of \<open>ayat_rows\<close>.\<close>

lemma explode_loop_rows:
  "even (length parts - i) \<Longrightarrow> explode_loop r parts i = Inr (ayat_rows r (drop i parts))"
proof (induction r parts i rule: explode_loop.induct)
  case (1 r parts i)
  show ?case
  proof (cases "i < length parts")
    case False
    then show ?thesis by (subst explode_loop.simps) simp
  next
    case True
    with "1.prems" have lt: "i + 1 < length parts"
      by (cases "length parts - i = 1") auto
    have ev: "even (length parts - (i + 2))" using "1.prems" lt by simp
    have p1: "py_index parts i = Inr (parts ! i)" using True by (simp add: py_index_def)
    have p2: "py_index parts (i + 1) = Inr (parts ! (i + 1))" using lt by (simp add: py_index_def)
    from "1.IH"[OF True p1 p2 refl refl ev]
    have o: "explode_loop r parts (i + 2) = Inr (ayat_rows r (drop (i + 2) parts))" .
    have "drop i parts = parts ! i # drop (Suc i) parts"
      using True by (simp add: Cons_nth_drop_Suc)
    also have "drop (Suc i) parts = parts ! (i + 1) # drop (i + 2) parts"
      using lt by (simp add: Cons_nth_drop_Suc)
    finally have d: "drop i parts = parts ! i # parts ! (i + 1) # drop (i + 2) parts" .
    show ?thesis
      by (subst explode_loop.simps) (use True p1 p2 o in \<open>simp add: Let_def d\<close>)
  qed
qed

lemma ayat_rows_ok:
  "\<forall>x\<in>set (ayat_rows r ps). section_type x = ustr ''AYAT'' \<and> text_body x \<noteq> []"
  by (induction r ps rule: ayat_rows.induct) simp_all

lemma ayat_rows_blank:
  "\<forall>k<length ps. odd k \<longrightarrow> strip (ps ! k) = [] \<Longrightarrow> ayat_rows r ps = []"
proof (induction r ps rule: ayat_rows.induct)
  case (1 r ay body rest)
  from "1.prems" have b: "strip body = []" by fastforce
  have "\<forall>k<length rest. odd k \<longrightarrow> strip (rest ! k) = []"
  proof (intro allI impI)
    fix k assume "k < length rest" "odd k"
    then have "Suc (Suc k) < length (ay # body # rest) \<and> odd (Suc (Suc k))" by simp
    with "1.prems" have "strip ((ay # body # rest) ! Suc (Suc k)) = []" by blast
    then show "strip (rest ! k) = []" by simp
  qed
  with "1.IH"(1)[OF b] b show ?case by simp
qed simp_all

lemma explode_loop_ok:
  "even (length parts - i) \<Longrightarrow>
   \<exists>out. explode_loop r parts i = Inr out \<and>
     (\<forall>x\<in>set out. section_type x = ustr ''AYAT'' \<and> text_body x \<noteq> [])"
  using explode_loop_rows ayat_rows_ok by blast

lemma explode_row_ok:
  "\<exists>out. explode_row L r = Inr out \<and>
     (\<forall>x\<in>set out. x = r \<or> (section_type x = ustr ''AYAT'' \<and> text_body x \<noteq> []))"
proof -
  have "even (length (re_split AYAT_SPLIT_RE t) - 1)" for t
    by (simp add: re_split_length)
  from explode_loop_ok[OF this, of r]
  obtain out where "explode_loop r (re_split AYAT_SPLIT_RE (strip (text_body r))) 1 = Inr out"
    and "\<forall>x\<in>set out. section_type x = ustr ''AYAT'' \<and> text_body x \<noteq> []"
    by blast
  then show ?thesis
    by (simp add: explode_row_def Let_def)
qed

lemma explode_df_ok:
  "\<exists>out. explode_ayat_rows_df L df = Inr out \<and>
     (\<forall>x\<in>set out. x \<in> set df \<or> (section_type x = ustr ''AYAT'' \<and> text_body x \<noteq> []))"
proof (induction df)
  case Nil
  then show ?case by simp
next
  case (Cons r df)
  obtain o1 where o1: "explode_row L r = Inr o1"
    "\<forall>x\<in>set o1. x = r \<or> (section_type x = ustr ''AYAT'' \<and> text_body x \<noteq> [])"
    using explode_row_ok by blast
  from Cons obtain o2 where o2: "explode_ayat_rows_df L df = Inr o2"
    "\<forall>x\<in>set o2. x \<in> set df \<or> (section_type x = ustr ''AYAT'' \<and> text_body x \<noteq> [])"
    by blast
  show ?case using o1 o2 by auto
qed

lemma explode_row_no_marker:
  "re_finditer AYAT_SPLIT_RE (strip (text_body r)) = [] \<Longrightarrow> explode_row L r = Inr [r]"
  by (simp add: explode_row_def Let_def re_split_length)

text \<open>
  Claim C1, as amended. The exploder looks for one marker, not two: a row sequence in
  which every Pasal row without ayat number has no match of the marker pattern in its
  trimmed text passes through unchanged (rows of another section type, and rows that
  have an ayat number, pass through whatever their text). The section type is compared
  after \<open>str.upper\<close>, and the digits of the marker pattern are those of \<open>\d\<close>.
\<close>

theorem exploder_keeps_rows_without_marker:
  "\<forall>r\<in>set df. str_upper L (section_type r) = ustr ''PASAL'' \<and> ayat_is_empty (ayat_number r)
       \<longrightarrow> re_finditer AYAT_SPLIT_RE (strip (text_body r)) = [] \<Longrightarrow>
   explode_ayat_rows_df L df = Inr df"
proof (induction df)
  case Nil
  then show ?case by simp
next
  case (Cons r df)
  have "explode_row L r = Inr [r]"
  proof (cases "str_upper L (section_type r) = ustr ''PASAL'' \<and> ayat_is_empty (ayat_number r)")
    case True
    with Cons.prems show ?thesis by (simp add: explode_row_no_marker)
  next
    case False
    then show ?thesis by (auto simp: explode_row_def Let_def)
  qed
  moreover have "explode_ayat_rows_df L df = Inr df" using Cons by simp
  ultimately show ?case by simp
qed

theorem exploder_keeps_rows_without_marker_witness:
  "re_finditer AYAT_SPLIT_RE (strip (text_body (pasal_row (ustr ''no marker'')))) = [] \<and>
   explode_ayat_rows_df example_lib [pasal_row (ustr ''no marker'')] =
     Inr [pasal_row (ustr ''no marker'')]"
proof -
  have h: "re_finditer AYAT_SPLIT_RE (strip (text_body (pasal_row (ustr ''no marker'')))) = []"
    by (simp add: text_defs ayat_defs)
  from exploder_keeps_rows_without_marker[of "[pasal_row (ustr ''no marker'')]" example_lib] h
  show ?thesis by simp
qed

text \<open>
  Claim C1 as stated fails: a Pasal row whose text has exactly one marker is exploded
  into one Ayat row.
\<close>

theorem one_marker_is_exploded:
  "str_upper example_lib (section_type (pasal_row (ustr ''(1) foo''))) = ustr ''PASAL'' \<and>
   ayat_number (pasal_row (ustr ''(1) foo'')) = None \<and>
   length (re_finditer AYAT_SPLIT_RE (text_body (pasal_row (ustr ''(1) foo'')))) = 1 \<and>
   explode_ayat_rows_df example_lib [pasal_row (ustr ''(1) foo'')] =
     Inr [(pasal_row (ustr ''(1) foo''))
            \<lparr>section_type := ustr ''AYAT'', ayat_number := Some (ustr ''1''),
             text_body := ustr ''foo''\<rparr>]"
  by (simp add: text_defs ayat_defs explode_loop.simps)

text \<open>The digits of a marker: the group of a match is a text of digits, not empty.\<close>

lemma AYAT_SPLIT_group:
  "AYAT_SPLIT_RE bol t = Some (n, g) \<Longrightarrow> g \<noteq> [] \<and> (\<forall>d\<in>set g. is_digit d)"
  by (auto simp: AYAT_SPLIT_RE_def Let_def split: option.splits if_splits dest: set_takeWhileD)

lemma scan_hits:
  "Hit w g \<in> set (re_scan m bol t) \<Longrightarrow> \<exists>bol' s n. m bol' s = Some (n, g)"
proof (induction m bol t rule: re_scan.induct)
  case (1 m bol)
  then show ?case by simp
next
  case (2 m bol c cs)
  show ?case
  proof (cases "m bol (c # cs)")
    case None
    with "2.prems" "2.IH"(1) show ?thesis by auto
  next
    case (Some a)
    obtain n g' where a: "a = (n, g')" by (cases a)
    show ?thesis
    proof (cases "0 < n \<and> n \<le> Suc (length cs)")
      case False
      with "2.prems" "2.IH"(3)[OF Some a[symmetric]] Some a show ?thesis by auto
    next
      case True
      with "2.prems" Some a have
        "(w = take n (c # cs) \<and> g = g') \<or>
         Hit w g \<in> set (re_scan m (last (take n (c # cs)) = 10) (drop n (c # cs)))"
        by auto
      then show ?thesis
      proof
        assume "w = take n (c # cs) \<and> g = g'"
        with Some a show ?thesis by blast
      next
        assume "Hit w g \<in> set (re_scan m (last (take n (c # cs)) = 10) (drop n (c # cs)))"
        with "2.IH"(2)[OF Some a[symmetric] True] show ?thesis by blast
      qed
    qed
  qed
qed

lemma split_segs_nonempty: "split_segs cur segs \<noteq> []"
  by (induction cur segs rule: split_segs.induct) simp_all

lemma ayat_rows_numbers:
  "\<forall>w g. Hit w g \<in> set segs \<longrightarrow> P g \<Longrightarrow>
   \<forall>x\<in>set (ayat_rows r (tl (split_segs cur segs))). \<exists>g. P g \<and> ayat_number x = Some (strip g)"
proof (induction cur segs rule: split_segs.induct)
  case (1 cur)
  then show ?case by simp
next
  case (2 cur c ss)
  then show ?case by simp
next
  case (3 cur w g ss)
  obtain t0 rest where sp: "split_segs [] ss = t0 # rest"
    using split_segs_nonempty[of "[]" ss] by (cases "split_segs [] ss") auto
  have ih: "\<forall>x\<in>set (ayat_rows r rest). \<exists>g. P g \<and> ayat_number x = Some (strip g)"
    using "3.IH" "3.prems" sp by simp
  have "P g" using "3.prems" by simp
  then show ?case using ih sp by auto
qed

lemma digit_not_space: "is_digit d \<Longrightarrow> \<not> is_space d"
  unfolding is_digit_def is_space_def by arith

lemma digits_strip:
  assumes "g \<noteq> []" and "\<forall>d\<in>set g. is_digit d"
  shows "strip g = g"
proof -
  from assms have "\<not> is_space (hd g)" "\<not> is_space (last g)"
    using digit_not_space by (simp_all add: hd_in_set last_in_set)
  with assms(1) have h: "dropWhile is_space g = g" by (cases g) auto
  from \<open>\<not> is_space (last g)\<close> assms(1) have "dropWhile is_space (rev g) = rev g"
    by (cases "rev g") (auto simp: last_rev hd_rev)
  with h show ?thesis by (simp add: strip_def lstrip_def rstrip_def)
qed

text \<open>
  Claim C10. A Pasal row without ayat number whose trimmed text has at least one match of
  the marker pattern is exploded: the output is, for each marker in order, one Ayat row
  with the marker's digits and the trimmed run after the marker, and no row for a run
  that is blank (\<open>ayat_rows\<close>). The row itself is not in the output, and when every run
  after a marker (the parts at the even indices from 2 on) is empty after trimming,
  nothing at all is emitted for the row, whatever stands before its first marker.
\<close>

theorem exploder_explodes_on_any_marker:
  assumes "str_upper L (section_type r) = ustr ''PASAL''"
    and "ayat_is_empty (ayat_number r)"
    and "re_finditer AYAT_SPLIT_RE (strip (text_body r)) \<noteq> []"
  shows "explode_ayat_rows_df L [r] =
           Inr (ayat_rows r (tl (re_split AYAT_SPLIT_RE (strip (text_body r))))) \<and>
         r \<notin> set (ayat_rows r (tl (re_split AYAT_SPLIT_RE (strip (text_body r))))) \<and>
         (\<forall>x\<in>set (ayat_rows r (tl (re_split AYAT_SPLIT_RE (strip (text_body r))))).
            section_type x = ustr ''AYAT'' \<and> text_body x \<noteq> []) \<and>
         ((\<forall>k<length (re_split AYAT_SPLIT_RE (strip (text_body r))).
              0 < k \<and> even k \<longrightarrow> strip (re_split AYAT_SPLIT_RE (strip (text_body r)) ! k) = [])
            \<longrightarrow> explode_ayat_rows_df L [r] = Inr [])"
proof -
  let ?parts = "re_split AYAT_SPLIT_RE (strip (text_body r))"
  let ?out = "ayat_rows r (tl ?parts)"
  have len: "length ?parts > 1" using assms(3) by (simp add: re_split_length)
  have ev: "even (length ?parts - 1)" by (simp add: re_split_length)
  have "explode_row L r = explode_loop r ?parts 1"
    using assms(1,2) len by (simp add: explode_row_def Let_def)
  also have "\<dots> = Inr ?out" using explode_loop_rows[OF ev] by (simp add: drop_Suc)
  finally have row: "explode_ayat_rows_df L [r] = Inr ?out" by simp
  \<comment> \<open>each output row has the digits of a marker as its ayat number\<close>
  let ?P = "\<lambda>g. g \<noteq> [] \<and> (\<forall>d\<in>set g. is_digit d)"
  have "\<forall>w g. Hit w g \<in> set (re_scan AYAT_SPLIT_RE True (strip (text_body r))) \<longrightarrow> ?P g"
    using scan_hits AYAT_SPLIT_group by blast
  from ayat_rows_numbers[OF this, of r "[]"]
  have num: "\<forall>x\<in>set ?out. \<exists>g. ?P g \<and> ayat_number x = Some (strip g)"
    by (simp add: re_split_def)
  have notin: "r \<notin> set ?out"
  proof
    assume "r \<in> set ?out"
    with num obtain g where g: "g \<noteq> []" "\<forall>d\<in>set g. is_digit d"
      "ayat_number r = Some (strip g)" by blast
    then have a: "ayat_number r = Some g" by (simp add: digits_strip)
    have "\<not> is_digit 110" by (simp add: is_digit_def)
    then have "g \<noteq> ustr ''nan''" using g(2) by (auto simp: ustr_def)
    with a g(1) assms(2) show False by (simp add: ayat_is_empty_def)
  qed
  have blank: "?out = []"
    if b: "\<forall>k<length ?parts. 0 < k \<and> even k \<longrightarrow> strip (?parts ! k) = []"
  proof (rule ayat_rows_blank, intro allI impI)
    fix k assume k: "k < length (tl ?parts)" "odd k"
    then have "Suc k < length ?parts \<and> 0 < Suc k \<and> even (Suc k)" by simp
    with b have "strip (?parts ! Suc k) = []" by blast
    then show "strip (tl ?parts ! k) = []" using k(1) by (simp add: nth_tl)
  qed
  show ?thesis using row notin ayat_rows_ok[of r "tl ?parts"] blank by simp
qed

theorem exploder_explodes_on_any_marker_witness:
  "str_upper example_lib (section_type (pasal_row (ustr ''intro (1) (2)''))) = ustr ''PASAL'' \<and>
   ayat_is_empty (ayat_number (pasal_row (ustr ''intro (1) (2)''))) \<and>
   re_finditer AYAT_SPLIT_RE (strip (text_body (pasal_row (ustr ''intro (1) (2)'')))) \<noteq> [] \<and>
   explode_ayat_rows_df example_lib [pasal_row (ustr ''intro (1) (2)'')] = Inr []"
proof -
  let ?r = "pasal_row (ustr ''intro (1) (2)'')"
  have h1: "str_upper example_lib (section_type ?r) = ustr ''PASAL''"
    by (simp add: text_defs ayat_defs)
  have h2: "ayat_is_empty (ayat_number ?r)" by (simp add: text_defs ayat_defs)
  have h3: "re_finditer AYAT_SPLIT_RE (strip (text_body ?r)) \<noteq> []" by (simp add: text_defs ayat_defs)
  have parts: "re_split AYAT_SPLIT_RE (strip (text_body ?r)) =
      [ustr ''intro '', ustr ''1'', ustr '' '', ustr ''2'', []]" by (simp add: text_defs ayat_defs)
  have h4: "\<forall>k<length (re_split AYAT_SPLIT_RE (strip (text_body ?r))).
      0 < k \<and> even k \<longrightarrow> strip (re_split AYAT_SPLIT_RE (strip (text_body ?r)) ! k) = []"
    unfolding parts
  proof (intro allI impI)
    fix k assume "k < length [ustr ''intro '', ustr ''1'', ustr '' '', ustr ''2'', []]" "0 < k \<and> even k"
    then have "k = 2 \<or> k = 4" by (cases k) (auto simp: less_Suc_eq)
    moreover have "strip (ustr '' '') = []" by (simp add: text_defs ayat_defs)
    moreover have "strip [] = []" by (simp add: text_defs ayat_defs)
    ultimately show "strip ([ustr ''intro '', ustr ''1'', ustr '' '', ustr ''2'', []] ! k) = []" by auto
  qed
  from exploder_explodes_on_any_marker[OF h1 h2 h3] h4 h1 h2 h3
  show ?thesis by auto
qed

subsection \<open>Main flow\<close>

lemmas scan_defs = re_sub_def re_finditer_def re_split_def at_eol_def ws_eol_def run_re_def
  ellipsis_re_def newlines4_re_def blanks2_re_def blanks1_re_def is_blank_def is_alpha_def
  PASAL_ANY_RE_def pasal_number_alt_def pasal_header_re_def is_roman_pasal_def
  mark_match_def BUKU_RE_def BAB_RE_def BAGIAN_RE_def is_roman_def is_roman_or_digit_def
  is_linebreak_def splitlines_def slice_def ci_fold_def is_ascii_digit_def

lemmas flow_defs = main_flow_def build_records_per_pdf_def detect_structure_def
  article_spans_def block_body_def nearest_tag_def minimal_clean_def
  build_record_def tag_label_def path_name_def cfg_x_def
  drop_penjelasan_df_def is_penjelasan_def startswith_def normalize_numbers_def
  drop_dot0_def astype_str_def suffix_to_prefix

lemma finditer_none_no_blocks:
  "re_finditer PASAL_ANY_RE raw = [] \<Longrightarrow> detect_structure raw = []"
  by (simp add: detect_structure_def article_spans_def Let_def)

lemma main_flow_total: "\<exists>rows. main_flow L docs = Inr rows"
proof -
  obtain out where "explode_ayat_rows_df L
      (concat (map (\<lambda>(c, raw_text). build_records_per_pdf L c raw_text) docs)) = Inr out"
    using explode_df_ok by blast
  then show ?thesis by (simp add: main_flow_def Let_def)
qed

text \<open>
  Claim C8. The main flow always returns rows and never raises: the index into \<open>parts\<close>
  is always in range. A text that is empty after trimming gives no rows, and a text with
  no match of the Pasal pattern gives no blocks and no rows.
\<close>

theorem core_is_total:
  "(\<exists>rows. main_flow L docs = Inr rows) \<and>
   (strip raw = [] \<longrightarrow> build_records_per_pdf L c raw = [] \<and> main_flow L [(c, raw)] = Inr []) \<and>
   (re_finditer PASAL_ANY_RE raw' = [] \<longrightarrow>
      detect_structure raw' = [] \<and> build_records_per_pdf L c raw' = [] \<and>
      main_flow L [(c, raw')] = Inr [])"
  using main_flow_total[of L docs]
  by (simp add: main_flow_def build_records_per_pdf_def finditer_none_no_blocks)

theorem core_is_total_witness:
  "strip (ustr ''  '' @ [10, 9]) = [] \<and>
   main_flow example_lib [(cfg_x, ustr ''  '' @ [10, 9])] = Inr [] \<and>
   re_finditer PASAL_ANY_RE (ustr ''lihat pasal 1'') = [] \<and>
   main_flow example_lib [(cfg_x, ustr ''lihat pasal 1'')] = Inr [] \<and>
   (\<exists>rows. main_flow example_lib [(cfg_x, ustr ''Pasal 1'')] = Inr rows)"
proof -
  have h1: "strip (ustr ''  '' @ [10, 9]) = []" by (simp add: text_defs)
  have h2: "re_finditer PASAL_ANY_RE (ustr ''lihat pasal 1'') = []"
    by (simp add: text_defs scan_defs)
  from core_is_total[of example_lib "[(cfg_x, ustr ''Pasal 1'')]" "ustr ''  '' @ [10, 9]" cfg_x
      "ustr ''lihat pasal 1''"] h1 h2
  show ?thesis by simp
qed

lemma build_records_pasal:
  "r \<in> set (build_records_per_pdf L c raw) \<Longrightarrow> section_type r = ustr ''PASAL''"
  by (auto simp: build_records_per_pdf_def build_loop_map build_record_def split: if_splits)

text \<open>
  The rows that the explosion makes never have an empty text: every row that is written
  is a Pasal row as it was built, or an Ayat row whose text is not empty.
\<close>

lemma written_ayat_rows_have_text:
  "main_flow L docs = Inr rows \<Longrightarrow>
   \<forall>r\<in>set rows. section_type r = ustr ''PASAL'' \<or>
                 (section_type r = ustr ''AYAT'' \<and> text_body r \<noteq> [])"
proof
  fix r
  assume a: "main_flow L docs = Inr rows" and r: "r \<in> set rows"
  let ?all = "concat (map (\<lambda>(c, raw_text). build_records_per_pdf L c raw_text) docs)"
  have pasal: "section_type x = ustr ''PASAL''" if "x \<in> set ?all" for x
    using that by (auto dest: build_records_pasal)
  obtain out where o: "explode_ayat_rows_df L ?all = Inr out"
    and p: "\<forall>x\<in>set out. x \<in> set ?all \<or> (section_type x = ustr ''AYAT'' \<and> text_body x \<noteq> [])"
    using explode_df_ok by blast
  have "rows = drop_penjelasan_df L (map normalize_numbers out) \<or> rows = []"
    using a o by (simp add: main_flow_def Let_def split: if_splits)
  with r have "r \<in> set (map normalize_numbers out)"
    by (auto simp: drop_penjelasan_df_def)
  then obtain x where x: "x \<in> set out" and rx: "r = normalize_numbers x" by auto
  have same: "section_type r = section_type x \<and> text_body r = text_body x"
    by (simp add: rx normalize_numbers_def)
  from p x have "x \<in> set ?all \<or> (section_type x = ustr ''AYAT'' \<and> text_body x \<noteq> [])"
    by blast
  then show "section_type r = ustr ''PASAL'' \<or>
             (section_type r = ustr ''AYAT'' \<and> text_body r \<noteq> [])"
    using same pasal by metis
qed

text \<open>
  Claim C5. The code does not keep what the claim says. A run after a marker that is
  empty after trimming is skipped by the explosion (lemma
  \<open>written_ayat_rows_have_text\<close>), but a Pasal row is passed on without a look at its
  text: the document \<open>Pasal 1\<close> gives one block whose text is empty, and the row with the
  empty text is written.
\<close>

theorem empty_pasal_row_is_emitted:
  "main_flow example_lib [(cfg_x, ustr ''Pasal 1'')] =
     Inr [(pasal_row [])\<lparr>ayat_number := Some (ustr ''None'')\<rparr>] \<and>
   text_body ((pasal_row [])\<lparr>ayat_number := Some (ustr ''None'')\<rparr>) = []"
  by (simp add: text_defs scan_defs flow_defs ayat_defs explode_loop.simps)

subsection \<open>Structure detection\<close>

lemma seg_spans_lower: "x \<in> set (seg_spans pos segs) \<Longrightarrow> pos \<le> fst x"
proof (induction pos segs rule: seg_spans.induct)
  case (1 pos)
  then show ?case by simp
next
  case (2 pos c ss)
  then show ?case by fastforce
next
  case (3 pos w g ss)
  then show ?case by fastforce
qed

lemma scan_spans_sorted:
  "sorted_wrt (<) (map fst (seg_spans pos (re_scan m bol t)) @ [pos + length t])"
proof (induction m bol t arbitrary: pos rule: re_scan.induct)
  case (1 m bol)
  then show ?case by simp
next
  case (2 m bol c cs)
  show ?case
  proof (cases "m bol (c # cs)")
    case None
    with "2.IH"(1)[of "Suc pos"] show ?thesis by simp
  next
    case (Some a)
    obtain n g where a: "a = (n, g)" by (cases a)
    show ?thesis
    proof (cases "0 < n \<and> n \<le> Suc (length cs)")
      case False
      with "2.IH"(3)[OF Some a[symmetric] _, of "Suc pos"] Some a show ?thesis by auto
    next
      case True
      let ?rest = "seg_spans (pos + n) (re_scan m (last (take n (c # cs)) = 10) (drop n (c # cs)))"
      from "2.IH"(2)[OF Some a[symmetric] True, of "pos + n"] True
      have ih: "sorted_wrt (<) (map fst ?rest @ [pos + Suc (length cs)])"
        by (simp add: add.assoc)
      have "\<forall>x\<in>set ?rest. pos < fst x"
        using seg_spans_lower[of _ "pos + n"] True by fastforce
      with ih Some a True show ?thesis
        by (simp add: min_absorb2)
    qed
  qed
qed

lemma block_spans_starts: "map fst (block_spans ms n) = map fst ms"
  by (induction ms n rule: block_spans.induct) simp_all

lemma block_spans_ends: "map (fst \<circ> snd) (block_spans ms n) = tl (map fst ms @ [n])"
  by (induction ms n rule: block_spans.induct) simp_all

lemma block_spans_labels: "map (snd \<circ> snd) (block_spans ms n) = map (strip \<circ> snd \<circ> snd) ms"
  by (induction ms n rule: block_spans.induct) simp_all

lemma slice_append: "s \<le> s' \<Longrightarrow> s' \<le> n \<Longrightarrow> slice t s s' @ slice t s' n = slice t s n"
proof -
  assume a: "s \<le> s'" "s' \<le> n"
  have "take (n - s) (drop s t) = take ((s' - s) + (n - s')) (drop s t)"
    using a by simp
  also have "\<dots> = take (s' - s) (drop s t) @ take (n - s') (drop (s' - s) (drop s t))"
    by (rule take_add)
  also have "drop (s' - s) (drop s t) = drop s' t" using a by simp
  finally show ?thesis by (simp add: slice_def)
qed

lemma block_spans_cover:
  "sorted_wrt (<) (map fst ms @ [n]) \<Longrightarrow>
   concat (map (\<lambda>(s, e, l). slice t s e) (block_spans ms n)) = slice t (hd (map fst ms @ [n])) n"
proof (induction ms n rule: block_spans.induct)
  case (1 n)
  then show ?case by (simp add: slice_def)
next
  case (2 s e g n)
  then show ?case by simp
next
  case (3 s e g s' m' ms n)
  from "3.prems" have le: "s \<le> s'" "s' \<le> n" by auto
  from "3.prems" have "sorted_wrt (<) (map fst ((s', m') # ms) @ [n])" by simp
  from "3.IH"[OF this] le show ?case by (simp add: slice_append)
qed

text \<open>
  Claim C4. The blocks start at the starts of the matches of the Pasal pattern; their
  starts are strictly ascending and below the length of the text; each block ends where
  the next one starts and the last one ends at the end of the text; and the slices of
  the blocks, one after the other, are the text from the first match on (nothing before
  the first match is in a block). The block texts are made from these slices.
\<close>

theorem article_blocks_partition:
  "map fst (article_spans t) = map fst (re_finditer PASAL_ANY_RE t) \<and>
   sorted_wrt (<) (map fst (article_spans t) @ [length t]) \<and>
   map (fst \<circ> snd) (article_spans t) = tl (map fst (article_spans t) @ [length t]) \<and>
   concat (map (\<lambda>(s, e, l). slice t s e) (article_spans t)) =
     drop (hd (map fst (article_spans t) @ [length t])) t \<and>
   map blk_text (detect_structure t) =
     map (\<lambda>(s, e, l). block_body t s e l) (article_spans t)"
proof -
  let ?ms = "re_finditer PASAL_ANY_RE t"
  have st: "map fst (article_spans t) = map fst ?ms"
    by (simp add: article_spans_def block_spans_starts)
  have so: "sorted_wrt (<) (map fst ?ms @ [length t])"
    using scan_spans_sorted[of 0 PASAL_ANY_RE True t] by (simp add: re_finditer_def)
  have en: "map (fst \<circ> snd) (article_spans t) = tl (map fst (article_spans t) @ [length t])"
    by (simp add: article_spans_def block_spans_ends block_spans_starts)
  have "concat (map (\<lambda>(s, e, l). slice t s e) (article_spans t)) =
          slice t (hd (map fst ?ms @ [length t])) (length t)"
    unfolding article_spans_def by (rule block_spans_cover[OF so])
  then have co: "concat (map (\<lambda>(s, e, l). slice t s e) (article_spans t)) =
     drop (hd (map fst (article_spans t) @ [length t])) t"
    by (simp add: st slice_def)
  have bl: "map blk_text (detect_structure t) =
     map (\<lambda>(s, e, l). block_body t s e l) (article_spans t)"
    by (simp add: detect_structure_def Let_def split_def comp_def)
  from st so en co bl show ?thesis by simp
qed

subsection \<open>Text that cleaning keeps\<close>

lemma sublist_avoid:
  assumes "c \<notin> set w" and "sublist w (a @ c # b)"
  shows "sublist w a \<or> sublist w b"
proof -
  from assms(2) consider "sublist w a" | "sublist w (c # b)"
    | w1 w2 where "w = w1 @ w2" "suffix w1 a" "prefix w2 (c # b)"
    by (auto simp: sublist_append)
  then show ?thesis
  proof cases
    case 1
    then show ?thesis by simp
  next
    case 2
    then have "prefix w (c # b) \<or> sublist w b" by (simp add: sublist_Cons_right)
    moreover have "w = []" if "prefix w (c # b)"
      using that assms(1) by (cases w) auto
    ultimately show ?thesis by auto
  next
    case 3
    have "w2 = []" using 3(1,3) assms(1) by (cases w2) auto
    with 3 show ?thesis by (auto intro: suffix_imp_sublist)
  qed
qed

lemma dropWhile_keep:
  assumes "sublist v u" and "v \<noteq> []" and "\<not> P (hd v)"
  shows "sublist v (dropWhile P u)"
proof -
  from assms(1) obtain ps ss where u: "u = ps @ v @ ss" by (auto simp: sublist_def)
  from assms(2,3) have hd: "dropWhile P (v @ ss) = v @ ss" by (cases v) auto
  show ?thesis
  proof (cases "\<forall>x\<in>set ps. P x")
    case True
    then have "dropWhile P u = v @ ss" by (simp add: u hd)
    then show ?thesis by (auto simp: sublist_def intro: exI[of _ "[]"])
  next
    case False
    then have "dropWhile P u = dropWhile P ps @ v @ ss" by (auto simp: u dropWhile_append1)
    then show ?thesis by (auto simp: sublist_def)
  qed
qed

lemma lstrip_keep: "sublist w t \<Longrightarrow> w \<noteq> [] \<Longrightarrow> \<not> is_space (hd w) \<Longrightarrow> sublist w (lstrip t)"
  by (simp add: lstrip_def dropWhile_keep)

lemma rstrip_keep:
  assumes "sublist w t" and "w \<noteq> []" and "\<not> is_space (last w)"
  shows "sublist w (rstrip t)"
proof -
  have "sublist (rev w) (dropWhile is_space (rev t))"
    using assms by (intro dropWhile_keep) (simp_all add: hd_rev)
  then have "sublist (rev (rev w)) (rev (dropWhile is_space (rev t)))"
    by (simp only: sublist_rev)
  then show ?thesis by (simp add: rstrip_def)
qed

lemma strip_keep:
  "sublist w t \<Longrightarrow> w \<noteq> [] \<Longrightarrow> \<not> is_space (hd w) \<Longrightarrow> \<not> is_space (last w) \<Longrightarrow>
   sublist w (strip t)"
  by (simp add: strip_def lstrip_keep rstrip_keep)

lemma join_nl_Cons: "join_nl (l # ls) = (if ls = [] then l else l @ 10 # join_nl ls)"
  by (cases ls) simp_all

lemma sublist_join_hd: "sublist w l \<Longrightarrow> sublist w (join_nl (l # ls))"
  by (auto simp: join_nl_Cons sublist_append)

lemma sublist_join_tl: "sublist w (join_nl ls) \<Longrightarrow> sublist w (join_nl (l # ls))"
  by (cases ls) (auto simp: sublist_append sublist_Cons_right)

lemma linebreak_is_space: "is_linebreak c \<Longrightarrow> is_space c"
  by (auto simp: is_linebreak_def is_space_def)

lemma lines_keep:
  assumes w: "w \<noteq> []" "\<forall>c\<in>set w. \<not> is_space c"
  shows "sublist w (cur @ t) \<Longrightarrow> sublist w (join_nl (map rstrip (splitlines_from cur t)))"
proof (induction cur t rule: splitlines_from.induct)
  case (1 cur)
  from w have lw: "\<not> is_space (last w)" by simp
  from 1 w(1) have "cur \<noteq> []" by auto
  with 1 w(1) lw show ?case by (simp add: rstrip_keep)
next
  case (2 cur c cs)
  from w have lw: "\<not> is_space (last w)" by simp
  show ?case
  proof (cases "c = 13 \<and> (case cs of [] \<Rightarrow> False | d # _ \<Rightarrow> d = 10)")
    case True
    then obtain cs' where cs: "cs = 10 # cs'" by (cases cs) auto
    have "is_space 13" "is_space 10" by (simp_all add: is_space_def)
    with w(2) have n: "13 \<notin> set w" "10 \<notin> set w" by auto
    from "2.prems" True have "sublist w cur \<or> sublist w (10 # cs')"
      using sublist_avoid[OF n(1)] cs by auto
    then have "sublist w cur \<or> sublist w cs'"
      using sublist_avoid[OF n(2), of "[]" cs'] w(1) by auto
    then show ?thesis
    proof
      assume "sublist w cur"
      then have "sublist w (rstrip cur)" using w(1) lw by (rule rstrip_keep)
      then show ?thesis using True by (simp add: sublist_join_hd)
    next
      assume "sublist w cs'"
      then have "sublist w ([] @ tl cs)" by (simp add: cs)
      from "2.IH"(1)[OF True this] True show ?thesis by (simp add: sublist_join_tl)
    qed
  next
    case False
    show ?thesis
    proof (cases "is_linebreak c")
      case True
      then have "c \<notin> set w" using w(2) linebreak_is_space by auto
      have eq: "splitlines_from cur (c # cs) = cur # splitlines_from [] cs"
        using False True by auto
      from sublist_avoid[OF \<open>c \<notin> set w\<close> "2.prems"] show ?thesis
      proof
        assume "sublist w cur"
        then have "sublist w (rstrip cur)" using w(1) lw by (rule rstrip_keep)
        then show ?thesis unfolding eq by (simp add: sublist_join_hd)
      next
        assume "sublist w cs"
        then have "sublist w ([] @ cs)" by simp
        from "2.IH"(2)[OF False True this] show ?thesis
          unfolding eq by (simp add: sublist_join_tl)
      qed
    next
      case nl: False
      have eq: "splitlines_from cur (c # cs) = splitlines_from (cur @ [c]) cs"
        using False nl by auto
      from "2.prems" have "sublist w ((cur @ [c]) @ cs)" by simp
      from "2.IH"(3)[OF False nl this] show ?thesis unfolding eq .
    qed
  qed
qed

lemma scan_through:
  assumes Q: "\<forall>bol t n g. m bol t = Some (n, g) \<and> 0 < n \<and> n \<le> length t \<longrightarrow>
                (\<forall>c\<in>set (take n t). Q c)"
  shows "\<forall>c\<in>set w. \<not> Q c \<Longrightarrow>
         \<exists>bol'. concat (map (sub_seg repl) (re_scan m bol (w @ b))) =
                 w @ concat (map (sub_seg repl) (re_scan m bol' b))"
proof (induction w arbitrary: bol)
  case Nil
  then show ?case by auto
next
  case (Cons c w)
  have lit: "re_scan m bol (c # w @ b) = Lit c # re_scan m (c = 10) (w @ b)"
  proof (cases "m bol (c # w @ b)")
    case None
    then show ?thesis by simp
  next
    case (Some a)
    obtain n g where a: "a = (n, g)" by (cases a)
    have "\<not> (0 < n \<and> n \<le> Suc (length (w @ b)))"
    proof
      assume v: "0 < n \<and> n \<le> Suc (length (w @ b))"
      have "m bol (c # w @ b) = Some (n, g) \<and> 0 < n \<and> n \<le> length (c # w @ b)"
        using v Some a by simp
      with Q have "\<forall>x\<in>set (take n (c # w @ b)). Q x" by blast
      moreover from v have "c \<in> set (take n (c # w @ b))" by (cases n) auto
      ultimately show False using Cons.prems by auto
    qed
    with Some a show ?thesis by auto
  qed
  from Cons.IH[of "c = 10"] Cons.prems obtain bol' where
    "concat (map (sub_seg repl) (re_scan m (c = 10) (w @ b))) =
       w @ concat (map (sub_seg repl) (re_scan m bol' b))" by auto
  with lit show ?case by auto
qed

lemma scan_keep:
  assumes Q: "\<forall>bol t n g. m bol t = Some (n, g) \<and> 0 < n \<and> n \<le> length t \<longrightarrow>
                (\<forall>c\<in>set (take n t). Q c)"
    and w: "w \<noteq> []" "\<forall>c\<in>set w. \<not> Q c"
  shows "t = a @ w @ b \<Longrightarrow> sublist w (concat (map (sub_seg repl) (re_scan m bol t)))"
proof (induction "length t" arbitrary: t a bol rule: less_induct)
  case less
  show ?case
  proof (cases a)
    case Nil
    from scan_through[OF Q w(2), where repl = repl and bol = bol and b = b]
    obtain bol' where "concat (map (sub_seg repl) (re_scan m bol (w @ b))) =
        w @ concat (map (sub_seg repl) (re_scan m bol' b))" by blast
    with less.prems Nil show ?thesis by simp
  next
    case (Cons c a')
    then have t: "t = c # a' @ w @ b" using less.prems by simp
    have step: "sublist w (concat (map (sub_seg repl) (re_scan m (c = 10) (a' @ w @ b))))"
      by (rule less.hyps[of "a' @ w @ b" a']) (simp_all add: t)
    have lit: ?thesis if "re_scan m bol t = Lit c # re_scan m (c = 10) (a' @ w @ b)"
      using that step by (simp add: sublist_Cons_right)
    show ?thesis
    proof (cases "m bol t")
      case None
      then show ?thesis by (intro lit) (simp add: t)
    next
      case (Some p)
      obtain n g where p: "p = (n, g)" by (cases p)
      show ?thesis
      proof (cases "0 < n \<and> n \<le> length t")
        case False
        with Some p show ?thesis by (intro lit) (auto simp: t)
      next
        case True
        have "m bol t = Some (n, g) \<and> 0 < n \<and> n \<le> length t" using Some p True by simp
        with Q have allQ: "\<forall>x\<in>set (take n t). Q x" by blast
        have na: "n \<le> length a"
        proof (rule ccontr)
          assume "\<not> n \<le> length a"
          then have "0 < n - length a" by simp
          then have "hd w \<in> set (take (n - length a) (w @ b))"
            using w(1) by (cases w; cases "n - length a") auto
          then have "hd w \<in> set (take n t)" by (simp add: less.prems)
          with allQ w show False by auto
        qed
        have d: "drop n t = drop n a @ w @ b" using na by (simp add: less.prems)
        have "sublist w (concat (map (sub_seg repl)
                (re_scan m (last (take n t) = 10) (drop n t))))"
        proof (rule less.hyps[of "drop n t" "drop n a"])
          show "length (drop n t) < length t" using True unfolding length_drop by arith
          show "drop n t = drop n a @ w @ b" by (rule d)
        qed
        moreover have "re_scan m bol t =
            Hit (take n t) g # re_scan m (last (take n t) = 10) (drop n t)"
          using Some p True by (simp add: t)
        ultimately show ?thesis by (simp add: sublist_append)
      qed
    qed
  qed
qed

lemma re_sub_keep:
  assumes "\<forall>bol t n g. m bol t = Some (n, g) \<and> 0 < n \<and> n \<le> length t \<longrightarrow>
                (\<forall>c\<in>set (take n t). Q c)"
    and "w \<noteq> []" "\<forall>c\<in>set w. \<not> Q c" and "sublist w t"
  shows "sublist w (re_sub m repl t)"
proof -
  from assms(4) obtain a b where "t = a @ w @ b" by (auto simp: sublist_def)
  from scan_keep[OF assms(1-3) this] show ?thesis by (simp add: re_sub_def)
qed

lemma take_takeWhile: "take (length (takeWhile P xs)) xs = takeWhile P xs"
  by (induction xs) auto

lemma hyphen_break_only:
  "hyphen_break_re bol t = Some (n, g) \<Longrightarrow> \<forall>c\<in>set (take n t). is_space c \<or> c = 45 \<or> c = 46"
proof (cases "(bol, t)" rule: hyphen_break_re.cases)
  case (1 bol' c d cs)
  assume m: "hyphen_break_re bol t = Some (n, g)"
  with 1 have c: "c = 45" "d = 10" and n: "n = 2 + length (takeWhile is_space cs)"
    by (auto split: if_splits)
  have "take n t = 45 # 10 # takeWhile is_space cs"
    using 1 c n by (simp add: take_takeWhile)
  moreover have "is_space 10" by (simp add: is_space_def)
  ultimately show ?thesis by (auto dest: set_takeWhileD)
qed auto

lemma expect_skip:
  assumes "expect c (skip_ws t) = Some r"
  shows "\<exists>p. t = p @ r \<and> (\<forall>x\<in>set p. is_space x \<or> x = c)"
proof -
  from assms have "dropWhile is_space t = c # r"
    by (cases "dropWhile is_space t") (auto simp: skip_ws_def split: if_splits)
  then have "t = (takeWhile is_space t @ [c]) @ r"
    by (metis append.assoc append_Cons append_Nil takeWhile_dropWhile_id)
  moreover have "\<forall>x\<in>set (takeWhile is_space t @ [c]). is_space x \<or> x = c"
    by (auto dest: set_takeWhileD)
  ultimately show ?thesis by blast
qed

lemma ellipsis_only:
  assumes "ellipsis_re bol t = Some (n, g)"
  shows "\<forall>c\<in>set (take n t). is_space c \<or> c = 45 \<or> c = 46"
proof -
  from assms obtain r1 r2 r3 where e: "expect 46 (skip_ws t) = Some r1"
    "expect 46 (skip_ws r1) = Some r2" "expect 46 (skip_ws r2) = Some r3"
    and n: "n = length t - length (skip_ws r3)"
    by (auto simp: ellipsis_re_def split: option.splits)
  from expect_skip[OF e(1)] obtain p1 where p1: "t = p1 @ r1" "\<forall>x\<in>set p1. is_space x \<or> x = 46"
    by blast
  from expect_skip[OF e(2)] obtain p2 where p2: "r1 = p2 @ r2" "\<forall>x\<in>set p2. is_space x \<or> x = 46"
    by blast
  from expect_skip[OF e(3)] obtain p3 where p3: "r2 = p3 @ r3" "\<forall>x\<in>set p3. is_space x \<or> x = 46"
    by blast
  have r3: "r3 = takeWhile is_space r3 @ skip_ws r3" by (simp add: skip_ws_def)
  let ?p = "p1 @ p2 @ p3 @ takeWhile is_space r3"
  have t: "t = ?p @ skip_ws r3" using p1(1) p2(1) p3(1) r3 by simp
  then have "n = length ?p" using n by simp
  with t have "take n t = ?p" by (metis append_eq_conv_conj)
  then show ?thesis using p1(2) p2(2) p3(2) by (auto dest: set_takeWhileD)
qed

lemma run_only:
  "run_re cls least bol t = Some (n, g) \<Longrightarrow> \<forall>c\<in>set (take n t). cls c"
  by (auto simp: run_re_def Let_def take_takeWhile split: if_splits dest: set_takeWhileD)

lemma newlines4_only:
  "newlines4_re bol t = Some (n, g) \<Longrightarrow> \<forall>c\<in>set (take n t). is_space c \<or> c = 45 \<or> c = 46"
  unfolding newlines4_re_def by (drule run_only) (auto simp: is_space_def)

lemma blanks2_only:
  "blanks2_re bol t = Some (n, g) \<Longrightarrow> \<forall>c\<in>set (take n t). is_space c \<or> c = 45 \<or> c = 46"
  unfolding blanks2_re_def by (drule run_only) (auto simp: is_space_def is_blank_def)

lemma filter_keep: "sublist w t \<Longrightarrow> \<forall>c\<in>set w. P c \<Longrightarrow> sublist w (filter P t)"
proof -
  assume a: "sublist w t" "\<forall>c\<in>set w. P c"
  then obtain x y where "t = x @ w @ y" by (auto simp: sublist_def)
  moreover have "filter P w = w" using a(2) by (simp add: filter_id_conv)
  ultimately have "filter P t = filter P x @ w @ filter P y" by simp
  then show ?thesis by (auto simp: sublist_def)
qed

lemma minimal_clean_keep:
  assumes w: "w \<noteq> []"
    and inert: "\<forall>c\<in>set w. \<not> (is_space c \<or> c = 45 \<or> c = 46)"
    and sub: "sublist w (normalize_NFKC L (filter (\<lambda>c. c \<noteq> 0) t))"
  shows "sublist w (minimal_clean L t)"
proof -
  from inert have sp: "\<forall>c\<in>set w. \<not> is_space c" by simp
  let ?t2 = "normalize_NFKC L (filter (\<lambda>c. c \<noteq> 0) t)"
  let ?t3 = "re_sub hyphen_break_re [] ?t2"
  let ?t4 = "re_sub ellipsis_re [8230] ?t3"
  let ?t5 = "join_nl (map rstrip (splitlines ?t4))"
  let ?t6 = "re_sub newlines4_re [10, 10] ?t5"
  let ?t7 = "re_sub blanks2_re [32] ?t6"
  have 3: "sublist w ?t3"
    by (rule re_sub_keep[OF _ w inert sub]) (use hyphen_break_only in blast)
  have 4: "sublist w ?t4"
    by (rule re_sub_keep[OF _ w inert 3]) (use ellipsis_only in blast)
  have 5: "sublist w ?t5"
    unfolding splitlines_def using lines_keep[OF w sp, of "[]" ?t4] 4 by simp
  have 6: "sublist w ?t6"
    by (rule re_sub_keep[OF _ w inert 5]) (use newlines4_only in blast)
  have 7: "sublist w ?t7"
    by (rule re_sub_keep[OF _ w inert 6]) (use blanks2_only in blast)
  have "sublist w (strip ?t7)"
    using 7 w sp by (intro strip_keep) (simp_all add: hd_in_set)
  then show ?thesis by (simp add: minimal_clean_def Let_def)
qed

lemma digit_ge: "is_digit c \<Longrightarrow> 48 \<le> c"
  unfolding is_digit_def by arith

lemma marker_char_inert:
  assumes "c = 40 \<or> c = 41 \<or> is_digit c"
  shows "\<not> (is_space c \<or> c = 45 \<or> c = 46)" "c \<noteq> 0"
proof -
  have "\<not> is_space 40" "\<not> is_space 41" by (simp_all add: is_space_def)
  with assms show "\<not> (is_space c \<or> c = 45 \<or> c = 46)"
    using digit_not_space[of c] digit_ge[of c] by auto
  from assms show "c \<noteq> 0" using digit_ge[of c] by auto
qed

lemma plain_marker_matches:
  assumes "ds \<noteq> []" and "\<forall>d\<in>set ds. is_digit d"
  shows "AYAT_SPLIT_RE bol (40 # ds @ 41 # rest) = Some (length ds + 2, ds)"
proof -
  have nd: "\<not> is_digit 41" by (simp add: is_digit_def)
  have ns: "\<not> is_space 41" by (simp add: is_space_def)
  from assms have "\<not> is_space (hd ds)" by (cases ds) (auto simp: digit_not_space)
  with assms(1) have s1: "skip_ws (ds @ 41 # rest) = ds @ 41 # rest"
    by (cases ds) (simp_all add: skip_ws_def)
  have tw: "takeWhile is_digit (ds @ 41 # rest) = ds"
    using assms(2) nd by (simp add: takeWhile_append2)
  have dw: "dropWhile is_digit (ds @ 41 # rest) = 41 # rest"
    using assms(2) nd by (simp add: dropWhile_append2)
  have s2: "skip_ws (41 # rest) = 41 # rest" using ns by (simp add: skip_ws_def)
  show ?thesis using assms(1) by (simp add: AYAT_SPLIT_RE_def s1 tw dw s2 Let_def)
qed

text \<open>
  Claim C2, as amended. A marker written without whitespace, that is an opening
  parenthesis, one or more digits and a closing parenthesis, which the normalization
  \<open>NFKC\<close> leaves in place whatever stands before and after it (as it does every such
  marker with the digits \<open>0\<close> to \<open>9\<close>), is a match of the marker pattern, and wherever it
  stands in a text it stands unaltered in the cleaned text.
\<close>

theorem plain_markers_survive:
  assumes "ds \<noteq> []" and "\<forall>d\<in>set ds. is_digit d" and "sublist (40 # ds @ [41]) t"
    and "\<forall>x y. normalize_NFKC L (x @ (40 # ds @ [41]) @ y) =
                normalize_NFKC L x @ (40 # ds @ [41]) @ normalize_NFKC L y"
  shows "AYAT_SPLIT_RE True (40 # ds @ [41]) = Some (length ds + 2, ds) \<and>
         sublist (40 # ds @ [41]) (minimal_clean L t)"
proof -
  let ?w = "40 # ds @ [41]"
  have m: "\<forall>c\<in>set ?w. c = 40 \<or> c = 41 \<or> is_digit c"
    using assms(2) by auto
  from assms(3) obtain x y where t: "t = x @ ?w @ y" by (auto simp: sublist_def)
  have "filter (\<lambda>c. c \<noteq> 0) ?w = ?w"
    using m marker_char_inert(2) by (intro filter_True) blast
  then have "filter (\<lambda>c. c \<noteq> 0) t =
      filter (\<lambda>c. c \<noteq> 0) x @ ?w @ filter (\<lambda>c. c \<noteq> 0) y"
    unfolding t by (simp only: filter_append)
  then have "normalize_NFKC L (filter (\<lambda>c. c \<noteq> 0) t) =
      normalize_NFKC L (filter (\<lambda>c. c \<noteq> 0) x) @ ?w @
      normalize_NFKC L (filter (\<lambda>c. c \<noteq> 0) y)"
    using assms(4) by simp
  then have sub: "sublist ?w (normalize_NFKC L (filter (\<lambda>c. c \<noteq> 0) t))"
    unfolding sublist_def by blast
  have "sublist ?w (minimal_clean L t)"
  proof (rule minimal_clean_keep[OF _ _ sub])
    show "?w \<noteq> []" by simp
    show "\<forall>c\<in>set ?w. \<not> (is_space c \<or> c = 45 \<or> c = 46)"
      using m marker_char_inert(1) by blast
  qed
  with plain_marker_matches[OF assms(1,2), of True "[]"] show ?thesis by simp
qed

theorem plain_markers_survive_witness:
  "sublist (ustr ''(12)'') (ustr ''ayat  (12) -'' @ [10] @ ustr ''x'') \<and>
   (\<forall>x y. normalize_NFKC example_lib (x @ ustr ''(12)'' @ y) =
           normalize_NFKC example_lib x @ ustr ''(12)'' @ normalize_NFKC example_lib y) \<and>
   sublist (ustr ''(12)'') (minimal_clean example_lib (ustr ''ayat  (12) -'' @ [10] @ ustr ''x''))"
proof -
  have e: "ustr ''(12)'' = 40 # [49, 50] @ [41]" by (simp add: ustr_def)
  have s: "sublist (40 # [49, 50] @ [41]) (ustr ''ayat  (12) -'' @ [10] @ ustr ''x'')"
    by (simp add: ustr_def sublist_Cons_right)
  have d: "\<forall>d\<in>set [49, 50]. is_digit d" by (simp add: is_digit_def)
  have n: "\<forall>x y. normalize_NFKC example_lib (x @ (40 # [49, 50] @ [41]) @ y) =
      normalize_NFKC example_lib x @ (40 # [49, 50] @ [41]) @ normalize_NFKC example_lib y"
    by (simp add: example_lib_def example_nfkc_char_def)
  from plain_markers_survive[OF _ d s n] s n show ?thesis unfolding e by simp
qed

text \<open>
  Claim C2 as stated fails: the pattern allows whitespace inside the parentheses, and
  cleaning collapses a run of two blanks there; and the digits of the pattern include
  the fullwidth digits, which the normalization replaces by the digits \<open>0\<close> to \<open>9\<close>.
\<close>

theorem spaced_or_fullwidth_marker_is_altered:
  "AYAT_SPLIT_RE True (ustr ''(  1)'') = Some (5, ustr ''1'') \<and>
   minimal_clean example_lib (ustr ''(  1)'') = ustr ''( 1)'' \<and>
   \<not> sublist (ustr ''(  1)'') (minimal_clean example_lib (ustr ''(  1)'')) \<and>
   AYAT_SPLIT_RE True [40, 65297, 41] = Some (3, [65297]) \<and>
   minimal_clean example_lib [40, 65297, 41] = ustr ''(1)'' \<and>
   \<not> sublist [40, 65297, 41] (minimal_clean example_lib [40, 65297, 41])"
proof -
  have a: "AYAT_SPLIT_RE True (ustr ''(  1)'') = Some (5, ustr ''1'')"
    by (simp add: text_defs ayat_defs)
  have b: "minimal_clean example_lib (ustr ''(  1)'') = ustr ''( 1)''"
    by (simp add: text_defs scan_defs flow_defs)
  have c: "\<not> sublist (ustr ''(  1)'') (ustr ''( 1)'')"
    by (simp add: ustr_def sublist_Cons_right)
  have a': "AYAT_SPLIT_RE True [40, 65297, 41] = Some (3, [65297])"
    by (simp add: text_defs ayat_defs)
  have b': "minimal_clean example_lib [40, 65297, 41] = ustr ''(1)''"
    by (simp add: text_defs scan_defs flow_defs)
  have c': "\<not> sublist [40, 65297, 41] (ustr ''(1)'')"
    by (simp add: ustr_def sublist_Cons_right)
  from a b c a' b' c' show ?thesis by simp
qed

subsection \<open>Runs and neighbours under substitution\<close>

lemma no_adjacent_append:
  "no_adjacent R (xs @ ys) \<longleftrightarrow>
     no_adjacent R xs \<and> no_adjacent R ys \<and> (xs \<noteq> [] \<and> ys \<noteq> [] \<longrightarrow> \<not> R (last xs) (hd ys))"
proof (induction R xs rule: no_adjacent.induct)
  case (1 R a b cs)
  then show ?case by auto
next
  case (2 R a)
  then show ?case by (cases ys) auto
next
  case (3 R)
  then show ?case by simp
qed

lemma no_adjacent_sublist: "no_adjacent R x \<Longrightarrow> sublist y x \<Longrightarrow> no_adjacent R y"
  by (auto simp: sublist_def no_adjacent_append)

lemma short_runs_sublist:
  assumes "short_runs P k x" and "sublist y x"
  shows "short_runs P k y"
  unfolding short_runs_def
proof (intro allI impI)
  fix s assume "suffix s y"
  then obtain u where y: "y = u @ s" by (auto simp: suffix_def)
  from assms(2) obtain p q where "x = p @ y @ q" by (auto simp: sublist_def)
  then have "suffix (s @ q) x" by (simp add: y suffix_def)
  with assms(1) have "length (takeWhile P (s @ q)) < k" by (simp add: short_runs_def)
  moreover have "length (takeWhile P s) \<le> length (takeWhile P (s @ q))"
    by (induction s) auto
  ultimately show "length (takeWhile P s) < k" by simp
qed

lemma re_scan_bol:
  "\<forall>b1 b2 s. m b1 s = m b2 s \<Longrightarrow> re_scan m b1 t = re_scan m b2 t"
proof (induction "length t" arbitrary: t b1 b2 rule: less_induct)
  case less
  show ?case
  proof (cases t)
    case Nil
    then show ?thesis by simp
  next
    case (Cons c cs)
    have same: "m b1 (c # cs) = m b2 (c # cs)" using less.prems by blast
    have r1: "re_scan m x cs = re_scan m y cs" for x y
      by (rule less.hyps) (use less.prems Cons in auto)
    have r2: "re_scan m x (drop n (c # cs)) = re_scan m y (drop n (c # cs))" if "0 < n" for x y n
      by (rule less.hyps) (use less.prems Cons that in auto)
    show ?thesis
    proof (cases "m b2 (c # cs)")
      case None
      with same Cons r1[of "c = 10" "c = 10"] show ?thesis by simp
    next
      case (Some p)
      obtain n g where "p = (n, g)" by (cases p)
      with Some same Cons show ?thesis by auto
    qed
  qed
qed

lemma run_sub_Nil: "re_sub (run_re cls k) repl [] = []"
  by (simp add: re_sub_def)

lemma run_sub_Cons:
  assumes "1 \<le> k"
  shows "re_sub (run_re cls k) repl (c # cs) =
     (if k \<le> length (takeWhile cls (c # cs))
      then repl @ re_sub (run_re cls k) repl (dropWhile cls (c # cs))
      else c # re_sub (run_re cls k) repl cs)"
proof -
  have b: "concat (map (sub_seg repl) (re_scan (run_re cls k) x t)) = re_sub (run_re cls k) repl t"
    for x t
    unfolding re_sub_def
    using re_scan_bol[where m = "run_re cls k" and ?b1.0 = x and ?b2.0 = True and t = t]
    by (simp add: run_re_def)
  let ?n = "length (takeWhile cls (c # cs))"
  have le: "?n \<le> Suc (length cs)" using length_takeWhile_le[of cls "c # cs"] by simp
  have d: "drop ?n (c # cs) = dropWhile cls (c # cs)" by (rule dropWhile_eq_drop[symmetric])
  show ?thesis
  proof (cases "k \<le> ?n")
    case True
    then have "run_re cls k True (c # cs) = Some (?n, [])" by (simp add: run_re_def)
    moreover have "0 < ?n" using True assms by linarith
    ultimately have scan: "re_scan (run_re cls k) True (c # cs) =
        Hit (take ?n (c # cs)) [] # re_scan (run_re cls k) (last (take ?n (c # cs)) = 10)
          (dropWhile cls (c # cs))"
      using le d by (simp del: takeWhile.simps dropWhile.simps)
    have "re_sub (run_re cls k) repl (c # cs) =
        repl @ concat (map (sub_seg repl) (re_scan (run_re cls k) (last (take ?n (c # cs)) = 10)
          (dropWhile cls (c # cs))))"
      unfolding re_sub_def scan by simp
    with True show ?thesis by (simp only: b if_True)
  next
    case False
    then have "run_re cls k True (c # cs) = None" by (simp add: run_re_def)
    then have "re_sub (run_re cls k) repl (c # cs) =
        c # concat (map (sub_seg repl) (re_scan (run_re cls k) (c = 10) cs))"
      unfolding re_sub_def by simp
    with False show ?thesis by (simp only: b if_False)
  qed
qed

lemma len_take_drop_While: "length (takeWhile P xs) + length (dropWhile P xs) = length xs"
  by (induction xs) auto

lemma run_rest_shorter:
  "1 \<le> k \<Longrightarrow> k \<le> length (takeWhile cls t) \<Longrightarrow> length (dropWhile cls t) < length t"
  using len_take_drop_While[of cls t] by linarith

lemma takeWhile_dropWhile_Nil: "takeWhile P (dropWhile P xs) = []"
  by (induction xs) auto

lemma run_sub_head:
  assumes "1 \<le> k" and "\<forall>c\<in>set repl. cls c"
  shows "takeWhile cls (re_sub (run_re cls k) repl t) =
           (if k \<le> length (takeWhile cls t) then repl else takeWhile cls t)"
proof (induction "length t" arbitrary: t rule: less_induct)
  case less
  show ?case
  proof (cases t)
    case Nil
    then show ?thesis using assms(1) by (simp add: run_sub_Nil)
  next
    case (Cons c cs)
    show ?thesis
    proof (cases "k \<le> length (takeWhile cls t)")
      case True
      let ?d = "dropWhile cls t"
      have "takeWhile cls (re_sub (run_re cls k) repl ?d) =
          (if k \<le> length (takeWhile cls ?d) then repl else takeWhile cls ?d)"
        by (rule less.hyps) (rule run_rest_shorter[OF assms(1) True])
      then have "takeWhile cls (re_sub (run_re cls k) repl ?d) = []"
        using assms(1) by (simp add: takeWhile_dropWhile_Nil)
      moreover have "re_sub (run_re cls k) repl t = repl @ re_sub (run_re cls k) repl ?d"
        using True unfolding Cons by (simp only: run_sub_Cons[OF assms(1)] if_True)
      ultimately show ?thesis using True assms(2) by (simp add: takeWhile_append2)
    next
      case False
      have eq: "re_sub (run_re cls k) repl (c # cs) = c # re_sub (run_re cls k) repl cs"
        using False unfolding Cons by (simp only: run_sub_Cons[OF assms(1)] if_False)
      show ?thesis
      proof (cases "cls c")
        case c: True
        with False Cons have "\<not> k \<le> length (takeWhile cls cs)" by simp
        moreover have "takeWhile cls (re_sub (run_re cls k) repl cs) =
          (if k \<le> length (takeWhile cls cs) then repl else takeWhile cls cs)"
          by (rule less.hyps) (simp add: Cons)
        ultimately show ?thesis using False c by (simp add: eq Cons)
      next
        case c: False
        with False show ?thesis by (simp add: eq Cons)
      qed
    qed
  qed
qed

lemma run_sub_short:
  assumes "1 \<le> k" and "\<forall>c\<in>set repl. cls c" and "length repl < k"
  shows "short_runs cls k (re_sub (run_re cls k) repl t)"
proof (induction "length t" arbitrary: t rule: less_induct)
  case less
  show ?case
  proof (cases t)
    case Nil
    then show ?thesis using assms(1) by (simp add: run_sub_Nil short_runs_def)
  next
    case (Cons c cs)
    show ?thesis
    proof (cases "k \<le> length (takeWhile cls t)")
      case True
      let ?d = "dropWhile cls t"
      have ih: "short_runs cls k (re_sub (run_re cls k) repl ?d)"
        by (rule less.hyps) (rule run_rest_shorter[OF assms(1) True])
      have hd: "takeWhile cls (re_sub (run_re cls k) repl ?d) = []"
        using assms(1) by (simp add: run_sub_head[OF assms(1,2)] takeWhile_dropWhile_Nil)
      have eq: "re_sub (run_re cls k) repl t = repl @ re_sub (run_re cls k) repl ?d"
        using True unfolding Cons by (simp only: run_sub_Cons[OF assms(1)] if_True)
      show ?thesis
        unfolding short_runs_def eq
      proof (intro allI impI)
        fix s assume "suffix s (repl @ re_sub (run_re cls k) repl ?d)"
        then consider "suffix s (re_sub (run_re cls k) repl ?d)"
          | r where "suffix r repl" "s = r @ re_sub (run_re cls k) repl ?d"
          by (auto simp: suffix_append)
        then show "length (takeWhile cls s) < k"
        proof cases
          case 1
          with ih show ?thesis by (simp add: short_runs_def)
        next
          case 2
          from 2(1) have "set r \<subseteq> set repl" by (auto simp: suffix_def)
          with assms(2) have "\<forall>x\<in>set r. cls x" by auto
          then have "takeWhile cls s = r" by (simp add: 2(2) takeWhile_append2 hd)
          moreover have "length r \<le> length repl" using 2(1) by (rule suffix_length_le)
          ultimately show ?thesis using assms(3) by simp
        qed
      qed
    next
      case False
      have eq: "re_sub (run_re cls k) repl t = c # re_sub (run_re cls k) repl cs"
        using False unfolding Cons by (simp only: run_sub_Cons[OF assms(1)] if_False)
      have ih: "short_runs cls k (re_sub (run_re cls k) repl cs)"
        by (rule less.hyps) (simp add: Cons)
      have whole: "length (takeWhile cls (re_sub (run_re cls k) repl t)) < k"
        using False by (simp add: run_sub_head[OF assms(1,2)])
      show ?thesis
        unfolding short_runs_def
      proof (intro allI impI)
        fix s assume "suffix s (re_sub (run_re cls k) repl t)"
        then have "s = re_sub (run_re cls k) repl t \<or> suffix s (re_sub (run_re cls k) repl cs)"
          by (auto simp: eq suffix_Cons)
        with whole ih show "length (takeWhile cls s) < k" by (auto simp: short_runs_def)
      qed
    qed
  qed
qed

lemma run_sub_fixed:
  assumes "1 \<le> k"
  shows "short_runs cls k x \<Longrightarrow> re_sub (run_re cls k) repl x = x"
proof (induction x)
  case Nil
  then show ?case by (simp add: run_sub_Nil)
next
  case (Cons c cs)
  from Cons.prems have "\<not> k \<le> length (takeWhile cls (c # cs))"
    by (auto simp: short_runs_def)
  moreover have "short_runs cls k cs"
    using Cons.prems by (auto simp: short_runs_def suffix_Cons)
  ultimately show ?case using Cons.IH by (simp only: run_sub_Cons[OF assms] if_False)
qed

lemma run_sub_set: "1 \<le> k \<Longrightarrow> set (re_sub (run_re cls k) repl t) \<subseteq> set t \<union> set repl"
proof (induction "length t" arbitrary: t rule: less_induct)
  case less
  show ?case
  proof (cases t)
    case Nil
    then show ?thesis by (simp add: run_sub_Nil)
  next
    case (Cons c cs)
    show ?thesis
    proof (cases "k \<le> length (takeWhile cls t)")
      case True
      have "set (re_sub (run_re cls k) repl (dropWhile cls t)) \<subseteq> set (dropWhile cls t) \<union> set repl"
        by (rule less.hyps) (use less.prems True in \<open>auto intro: run_rest_shorter\<close>)
      moreover have "set (dropWhile cls t) \<subseteq> set t" by (auto dest: set_dropWhileD)
      moreover have "re_sub (run_re cls k) repl t =
          repl @ re_sub (run_re cls k) repl (dropWhile cls t)"
        using True unfolding Cons by (simp only: run_sub_Cons[OF less.prems] if_True)
      ultimately show ?thesis by auto
    next
      case False
      have "set (re_sub (run_re cls k) repl cs) \<subseteq> set cs \<union> set repl"
        by (rule less.hyps) (use less.prems Cons in auto)
      moreover have "re_sub (run_re cls k) repl t = c # re_sub (run_re cls k) repl cs"
        using False unfolding Cons by (simp only: run_sub_Cons[OF less.prems] if_False)
      ultimately show ?thesis using Cons by auto
    qed
  qed
qed

lemma no_adjacent_Cons:
  "no_adjacent R (c # xs) \<longleftrightarrow> no_adjacent R xs \<and> (xs \<noteq> [] \<longrightarrow> \<not> R c (hd xs))"
  by (cases xs) auto

lemma run_sub_hd:
  assumes "1 \<le> k" and "repl \<noteq> []" and "t \<noteq> []"
  shows "re_sub (run_re cls k) repl t \<noteq> [] \<and>
         hd (re_sub (run_re cls k) repl t) =
           (if k \<le> length (takeWhile cls t) then hd repl else hd t)"
proof -
  from assms(3) obtain c cs where t: "t = c # cs" by (cases t) auto
  show ?thesis unfolding t using assms(2) by (simp only: run_sub_Cons[OF assms(1)]) simp
qed

lemma run_sub_other_head:
  assumes "1 \<le> k" and "\<forall>c. P c \<longrightarrow> \<not> cls c" and "repl \<noteq> []" and "\<forall>c\<in>set repl. \<not> P c"
  shows "takeWhile P (re_sub (run_re cls k) repl t) = takeWhile P t"
proof (induction t)
  case Nil
  then show ?case by (simp add: run_sub_Nil)
next
  case (Cons c cs)
  show ?case
  proof (cases "P c")
    case True
    with assms(2) have "\<not> cls c" by simp
    then have "\<not> k \<le> length (takeWhile cls (c # cs))" using assms(1) by simp
    then have "re_sub (run_re cls k) repl (c # cs) = c # re_sub (run_re cls k) repl cs"
      by (simp only: run_sub_Cons[OF assms(1)] if_False)
    with True Cons show ?thesis by simp
  next
    case False
    have "\<not> P (hd (re_sub (run_re cls k) repl (c # cs)))"
      using run_sub_hd[OF assms(1,3), of "c # cs" cls] False assms(3,4)
      by (auto split: if_splits)
    moreover have "re_sub (run_re cls k) repl (c # cs) \<noteq> []"
      using run_sub_hd[OF assms(1,3), of "c # cs" cls] by simp
    ultimately have "takeWhile P (re_sub (run_re cls k) repl (c # cs)) = []"
      by (cases "re_sub (run_re cls k) repl (c # cs)") auto
    with False show ?thesis by simp
  qed
qed

lemma run_sub_other_short:
  assumes "1 \<le> k" and "\<forall>c. P c \<longrightarrow> \<not> cls c" and "repl \<noteq> []" and "\<forall>c\<in>set repl. \<not> P c"
    and "0 < j"
  shows "short_runs P j t \<Longrightarrow> short_runs P j (re_sub (run_re cls k) repl t)"
proof (induction "length t" arbitrary: t rule: less_induct)
  case less
  show ?case
  proof (cases t)
    case Nil
    then show ?thesis using assms(5) by (simp add: run_sub_Nil short_runs_def)
  next
    case (Cons c cs)
    have whole: "length (takeWhile P (re_sub (run_re cls k) repl t)) < j"
      using less.prems by (simp add: run_sub_other_head[OF assms(1-4)] short_runs_def)
    show ?thesis
    proof (cases "k \<le> length (takeWhile cls t)")
      case True
      let ?d = "dropWhile cls t"
      have "sublist ?d t" by (metis sublist_appendI suffix_dropWhile suffix_def sublist_def append_Nil2 suffix_imp_sublist)
      then have "short_runs P j ?d" using less.prems short_runs_sublist by blast
      then have ih: "short_runs P j (re_sub (run_re cls k) repl ?d)"
        by (intro less.hyps run_rest_shorter[OF assms(1) True])
      have eq: "re_sub (run_re cls k) repl t = repl @ re_sub (run_re cls k) repl ?d"
        using True unfolding Cons by (simp only: run_sub_Cons[OF assms(1)] if_True)
      show ?thesis
        unfolding short_runs_def eq
      proof (intro allI impI)
        fix s assume "suffix s (repl @ re_sub (run_re cls k) repl ?d)"
        then consider "suffix s (re_sub (run_re cls k) repl ?d)"
          | r where "suffix r repl" "r \<noteq> []" "s = r @ re_sub (run_re cls k) repl ?d"
          by (auto simp: suffix_append) metis
        then show "length (takeWhile P s) < j"
        proof cases
          case 1
          with ih show ?thesis by (simp add: short_runs_def)
        next
          case 2
          from 2(1,2) have "hd r \<in> set repl" by (auto simp: suffix_def)
          with assms(4) 2(2) have "takeWhile P r = []" by (cases r) auto
          then have "takeWhile P s = []" using 2(2) by (cases r) (auto simp: 2(3) split: if_splits)
          with assms(5) show ?thesis by simp
        qed
      qed
    next
      case False
      have eq: "re_sub (run_re cls k) repl t = c # re_sub (run_re cls k) repl cs"
        using False unfolding Cons by (simp only: run_sub_Cons[OF assms(1)] if_False)
      have "short_runs P j cs" using less.prems by (auto simp: short_runs_def Cons suffix_Cons)
      then have ih: "short_runs P j (re_sub (run_re cls k) repl cs)"
        by (intro less.hyps) (simp add: Cons)
      show ?thesis
        unfolding short_runs_def
      proof (intro allI impI)
        fix s assume "suffix s (re_sub (run_re cls k) repl t)"
        then have "s = re_sub (run_re cls k) repl t \<or> suffix s (re_sub (run_re cls k) repl cs)"
          by (auto simp: eq suffix_Cons)
        with whole ih show "length (takeWhile P s) < j" by (auto simp: short_runs_def)
      qed
    qed
  qed
qed

lemma run_sub_no_adjacent:
  assumes k: "1 \<le> k" and r: "repl \<noteq> []" "no_adjacent R repl"
    and before: "\<forall>a c. cls c \<and> \<not> R a c \<longrightarrow> \<not> R a (hd repl)"
    and after: "\<forall>c b. cls c \<and> \<not> R c b \<longrightarrow> \<not> R (last repl) b"
  shows "no_adjacent R t \<Longrightarrow> no_adjacent R (re_sub (run_re cls k) repl t)"
proof (induction "length t" arbitrary: t rule: less_induct)
  case less
  show ?case
  proof (cases t)
    case Nil
    then show ?thesis by (simp add: run_sub_Nil)
  next
    case (Cons c cs)
    show ?thesis
    proof (cases "k \<le> length (takeWhile cls t)")
      case True
      let ?w = "takeWhile cls t" and ?d = "dropWhile cls t"
      have t: "t = ?w @ ?d" by simp
      have w: "?w \<noteq> []" using True k by auto
      from less.prems have split: "no_adjacent R ?d \<and> (?d \<noteq> [] \<longrightarrow> \<not> R (last ?w) (hd ?d))"
        using no_adjacent_append[of R ?w ?d] w by simp
      then have ih: "no_adjacent R (re_sub (run_re cls k) repl ?d)"
        by (intro less.hyps run_rest_shorter[OF k True]) simp
      have eq: "re_sub (run_re cls k) repl t = repl @ re_sub (run_re cls k) repl ?d"
        using True unfolding Cons by (simp only: run_sub_Cons[OF k] if_True)
      have "\<not> R (last repl) (hd (re_sub (run_re cls k) repl ?d))" if d: "?d \<noteq> []"
      proof -
        have "\<not> cls (hd ?d)" using d hd_dropWhile by blast
        then have "takeWhile cls ?d = []" using d by (cases ?d) auto
        then have "hd (re_sub (run_re cls k) repl ?d) = hd ?d"
          using run_sub_hd[OF k r(1) d, of cls] k by simp
        moreover have "cls (last ?w)" using w by (metis last_in_set set_takeWhileD)
        ultimately show ?thesis using after split d by auto
      qed
      moreover have "re_sub (run_re cls k) repl ?d = []" if "?d = []"
        unfolding that by (rule run_sub_Nil)
      ultimately show ?thesis
        unfolding eq using r(2) ih by (auto simp: no_adjacent_append)
    next
      case False
      have eq: "re_sub (run_re cls k) repl t = [c] @ re_sub (run_re cls k) repl cs"
        using False unfolding Cons by (simp only: run_sub_Cons[OF k] if_False) simp
      from less.prems have split: "no_adjacent R cs \<and> (cs \<noteq> [] \<longrightarrow> \<not> R c (hd cs))"
        using no_adjacent_append[of R "[c]" cs] by (simp add: Cons)
      then have ih: "no_adjacent R (re_sub (run_re cls k) repl cs)"
        by (intro less.hyps) (simp_all add: Cons)
      have "\<not> R c (hd (re_sub (run_re cls k) repl cs))" if cs: "cs \<noteq> []"
      proof (cases "k \<le> length (takeWhile cls cs)")
        case m: True
        then have "cls (hd cs)" using k cs by (cases cs) (auto split: if_splits)
        with before split cs have "\<not> R c (hd repl)" by blast
        with run_sub_hd[OF k r(1) cs, of cls] m show ?thesis by simp
      next
        case m: False
        with run_sub_hd[OF k r(1) cs, of cls] split cs show ?thesis by simp
      qed
      moreover have "re_sub (run_re cls k) repl cs = []" if "cs = []"
        using that by (simp add: run_sub_Nil)
      ultimately show ?thesis
        unfolding eq using ih by (cases "cs = []") (simp_all add: no_adjacent_Cons run_sub_hd[OF k r(1)])
    qed
  qed
qed

subsection \<open>Lines\<close>

lemma splitlines_no_linebreak:
  "(\<forall>c\<in>set cur. \<not> is_linebreak c) \<Longrightarrow> l \<in> set (splitlines_from cur t) \<Longrightarrow>
   \<forall>c\<in>set l. \<not> is_linebreak c"
proof (induction cur t rule: splitlines_from.induct)
  case (1 cur)
  then show ?case by (auto split: if_splits)
next
  case (2 cur c cs)
  show ?case
  proof (cases "c = 13 \<and> (case cs of [] \<Rightarrow> False | d # _ \<Rightarrow> d = 10)")
    case True
    with "2.prems" have "l = cur \<or> l \<in> set (splitlines_from [] (tl cs))" by auto
    with "2.IH"(1)[OF True] "2.prems"(1) show ?thesis by auto
  next
    case False
    show ?thesis
    proof (cases "is_linebreak c")
      case True
      with False "2.prems" have "l = cur \<or> l \<in> set (splitlines_from [] cs)" by auto
      with "2.IH"(2)[OF False True] "2.prems"(1) show ?thesis by auto
    next
      case nl: False
      with False "2.prems" have "l \<in> set (splitlines_from (cur @ [c]) cs)" by auto
      moreover have "\<forall>x\<in>set (cur @ [c]). \<not> is_linebreak x" using "2.prems"(1) nl by auto
      ultimately show ?thesis using "2.IH"(3)[OF False nl] by blast
    qed
  qed
qed

lemma splitlines_set:
  "l \<in> set (splitlines_from cur t) \<Longrightarrow> set l \<subseteq> set cur \<union> set t"
proof (induction cur t rule: splitlines_from.induct)
  case (1 cur)
  then show ?case by (auto split: if_splits)
next
  case (2 cur c cs)
  show ?case
  proof (cases "c = 13 \<and> (case cs of [] \<Rightarrow> False | d # _ \<Rightarrow> d = 10)")
    case True
    with "2.prems" have "l = cur \<or> l \<in> set (splitlines_from [] (tl cs))" by auto
    moreover have "set (tl cs) \<subseteq> set cs" by (cases cs) auto
    ultimately show ?thesis using "2.IH"(1)[OF True] by auto
  next
    case False
    show ?thesis
    proof (cases "is_linebreak c")
      case True
      with False "2.prems" have "l = cur \<or> l \<in> set (splitlines_from [] cs)" by auto
      with "2.IH"(2)[OF False True] show ?thesis by auto
    next
      case nl: False
      with False "2.prems" have "l \<in> set (splitlines_from (cur @ [c]) cs)" by auto
      with "2.IH"(3)[OF False nl] show ?thesis by auto
    qed
  qed
qed

lemma rstrip_set: "set (rstrip l) \<subseteq> set l"
  by (auto simp: rstrip_def dest: set_dropWhileD)

lemma rstrip_last: "rstrip l = [] \<or> \<not> is_space (last (rstrip l))"
proof (cases "dropWhile is_space (rev l) = []")
  case True
  then show ?thesis by (simp add: rstrip_def)
next
  case False
  then have "\<not> is_space (hd (dropWhile is_space (rev l)))" by (rule hd_dropWhile)
  with False show ?thesis by (simp add: rstrip_def last_rev)
qed

lemma rstrip_fixed: "x = [] \<or> \<not> is_space (last x) \<Longrightarrow> rstrip x = x"
proof (cases x rule: rev_cases)
  case Nil
  then show ?thesis by (simp add: rstrip_def)
next
  case (snoc ys y)
  assume "x = [] \<or> \<not> is_space (last x)"
  with snoc show ?thesis by (simp add: rstrip_def)
qed

lemma join_nl_set: "set (join_nl ls) \<subseteq> \<Union> (set ` set ls) \<union> {10}"
  by (induction ls rule: join_nl.induct) auto

lemma no_adjacent_second:
  "\<forall>b\<in>set l. \<forall>a. \<not> R a b \<Longrightarrow> no_adjacent R l"
  by (induction l) (auto simp: no_adjacent_Cons)

lemma join_nl_good:
  assumes "\<forall>l\<in>set ls. (\<forall>c\<in>set l. \<not> is_linebreak c) \<and> (l = [] \<or> \<not> is_space (last l))"
  shows "no_adjacent space_before_nl (join_nl ls)"
  using assms
proof (induction ls rule: join_nl.induct)
  case 1
  then show ?case by simp
next
  case (2 l)
  have "is_linebreak 10" by (simp add: is_linebreak_def)
  with 2 have "\<forall>b\<in>set l. \<forall>a. \<not> space_before_nl a b" by (auto simp: space_before_nl_def)
  then show ?case by (simp add: no_adjacent_second)
next
  case (3 l v va)
  have lb: "is_linebreak 10" by (simp add: is_linebreak_def)
  with 3(2) have "\<forall>b\<in>set l. \<forall>a. \<not> space_before_nl a b" by (auto simp: space_before_nl_def)
  then have l: "no_adjacent space_before_nl l" by (simp add: no_adjacent_second)
  from 3 have rest: "no_adjacent space_before_nl (join_nl (v # va))" by simp
  have a: "l \<noteq> [] \<longrightarrow> \<not> space_before_nl (last l) 10"
    using 3(2) by (auto simp: space_before_nl_def)
  have b: "\<not> space_before_nl 10 b" for b by (simp add: space_before_nl_def)
  have "no_adjacent space_before_nl (10 # join_nl (v # va))"
    using rest b by (simp add: no_adjacent_Cons)
  with l a show ?case by (simp add: no_adjacent_append)
qed

lemma lines_only_nl: "only_nl (join_nl (map rstrip (splitlines x)))"
proof -
  have "\<not> is_linebreak c" if "c \<in> set l" "l \<in> set (map rstrip (splitlines x))" for c l
  proof -
    from that(2) obtain l' where "l' \<in> set (splitlines_from [] x)" "l = rstrip l'"
      by (auto simp: splitlines_def)
    with that(1) splitlines_no_linebreak[of "[]" l' x] rstrip_set[of l'] show ?thesis by auto
  qed
  with join_nl_set[of "map rstrip (splitlines x)"] show ?thesis
    unfolding only_nl_def by blast
qed

lemma lines_no_trailing: "no_adjacent space_before_nl (join_nl (map rstrip (splitlines x)))"
proof (rule join_nl_good, rule ballI, rule conjI)
  fix l assume "l \<in> set (map rstrip (splitlines x))"
  then obtain l' where l': "l' \<in> set (splitlines_from [] x)" "l = rstrip l'"
    by (auto simp: splitlines_def)
  show "\<forall>c\<in>set l. \<not> is_linebreak c"
    using l' splitlines_no_linebreak[of "[]" l' x] rstrip_set[of l'] by auto
  show "l = [] \<or> \<not> is_space (last l)" unfolding l'(2) by (rule rstrip_last)
qed

lemma lines_set: "set (join_nl (map rstrip (splitlines x))) \<subseteq> set x \<union> {10}"
proof -
  have "set l \<subseteq> set x" if "l \<in> set (map rstrip (splitlines x))" for l
  proof -
    from that obtain l' where "l' \<in> set (splitlines_from [] x)" "l = rstrip l'"
      by (auto simp: splitlines_def)
    with splitlines_set[of l' "[]" x] rstrip_set[of l'] show ?thesis by auto
  qed
  with join_nl_set[of "map rstrip (splitlines x)"] show ?thesis by blast
qed

lemma splitlines_from_nonempty: "t \<noteq> [] \<Longrightarrow> splitlines_from cur t \<noteq> []"
proof (induction cur t rule: splitlines_from.induct)
  case (1 cur)
  then show ?case by simp
next
  case (2 cur c cs)
  show ?case
  proof (cases "(c = 13 \<and> (case cs of [] \<Rightarrow> False | d # _ \<Rightarrow> d = 10)) \<or> is_linebreak c")
    case True
    then show ?thesis by auto
  next
    case False
    then have eq: "splitlines_from cur (c # cs) = splitlines_from (cur @ [c]) cs" by auto
    show ?thesis
    proof (cases cs)
      case Nil
      then show ?thesis by (simp add: eq)
    next
      case (Cons d ds)
      with "2.IH"(3) False show ?thesis unfolding eq by auto
    qed
  qed
qed

lemma lines_fixed_from:
  "only_nl (cur @ t) \<Longrightarrow> no_adjacent space_before_nl (cur @ t) \<Longrightarrow>
   cur @ t = [] \<or> \<not> is_space (last (cur @ t)) \<Longrightarrow> \<forall>c\<in>set cur. \<not> is_linebreak c \<Longrightarrow>
   join_nl (map rstrip (splitlines_from cur t)) = cur @ t"
proof (induction cur t rule: splitlines_from.induct)
  case (1 cur)
  then have "rstrip cur = cur" by (intro rstrip_fixed) simp
  then show ?case by simp
next
  case (2 cur c cs)
  have "is_linebreak 13" by (simp add: is_linebreak_def)
  moreover have "c \<in> set (cur @ c # cs)" by simp
  ultimately have n13: "c \<noteq> 13" using "2.prems"(1) unfolding only_nl_def by fastforce
  show ?case
  proof (cases "is_linebreak c")
    case True
    moreover have "c \<in> set (cur @ c # cs)" by simp
    ultimately have c: "c = 10" using "2.prems"(1) unfolding only_nl_def by blast
    have eq: "splitlines_from cur (c # cs) = cur # splitlines_from [] cs"
      using n13 True by simp
    have "is_space 10" by (simp add: is_space_def)
    with "2.prems"(3) c have cs: "cs \<noteq> []" by auto
    have "cur = [] \<or> \<not> is_space (last cur)"
    proof (cases "cur = []")
      case False
      from "2.prems"(2) have "\<not> space_before_nl (last cur) 10"
        using False by (simp add: no_adjacent_append c)
      moreover have "is_linebreak 10" by (simp add: is_linebreak_def)
      then have "last cur \<noteq> 10"
        using "2.prems"(4) False last_in_set[of cur] by metis
      ultimately show ?thesis by (simp add: space_before_nl_def)
    qed simp
    then have r: "rstrip cur = cur" by (rule rstrip_fixed)
    have "join_nl (map rstrip (splitlines_from [] cs)) = [] @ cs"
    proof (rule "2.IH"(2))
      show "\<not> (c = 13 \<and> (case cs of [] \<Rightarrow> False | d # _ \<Rightarrow> d = 10))" using n13 by simp
      show "is_linebreak c" by (rule True)
      show "only_nl ([] @ cs)" using "2.prems"(1) by (simp add: only_nl_def)
      show "no_adjacent space_before_nl ([] @ cs)"
        using "2.prems"(2) by (simp add: no_adjacent_append no_adjacent_Cons)
      show "[] @ cs = [] \<or> \<not> is_space (last ([] @ cs))" using "2.prems"(3) cs by simp
      show "\<forall>c\<in>set []. \<not> is_linebreak c" by simp
    qed
    moreover have "map rstrip (splitlines_from [] cs) \<noteq> []"
      using splitlines_from_nonempty[OF cs] by simp
    ultimately show ?thesis unfolding eq by (simp add: join_nl_Cons r c)
  next
    case False
    have eq: "splitlines_from cur (c # cs) = splitlines_from (cur @ [c]) cs"
      using n13 False by simp
    have "join_nl (map rstrip (splitlines_from (cur @ [c]) cs)) = (cur @ [c]) @ cs"
    proof (rule "2.IH"(3))
      show "\<not> (c = 13 \<and> (case cs of [] \<Rightarrow> False | d # _ \<Rightarrow> d = 10))" using n13 by simp
      show "\<not> is_linebreak c" by (rule False)
      show "only_nl ((cur @ [c]) @ cs)" using "2.prems"(1) by simp
      show "no_adjacent space_before_nl ((cur @ [c]) @ cs)" using "2.prems"(2) by simp
      show "(cur @ [c]) @ cs = [] \<or> \<not> is_space (last ((cur @ [c]) @ cs))"
        using "2.prems"(3) by simp
      show "\<forall>x\<in>set (cur @ [c]). \<not> is_linebreak x" using "2.prems"(4) False by simp
    qed
    then show ?thesis unfolding eq by simp
  qed
qed

lemma lines_fixed:
  "only_nl x \<Longrightarrow> no_adjacent space_before_nl x \<Longrightarrow> trimmed x \<Longrightarrow>
   join_nl (map rstrip (splitlines x)) = x"
proof -
  assume a: "only_nl x" "no_adjacent space_before_nl x" "trimmed x"
  have "join_nl (map rstrip (splitlines_from [] x)) = [] @ x"
  proof (rule lines_fixed_from)
    show "only_nl ([] @ x)" using a(1) by simp
    show "no_adjacent space_before_nl ([] @ x)" using a(2) by simp
    show "[] @ x = [] \<or> \<not> is_space (last ([] @ x))" using a(3) by (auto simp: trimmed_def)
    show "\<forall>c\<in>set []. \<not> is_linebreak c" by simp
  qed
  then show ?thesis by (simp add: splitlines_def)
qed

subsection \<open>Trimming\<close>

lemma strip_sublist: "sublist (strip x) x"
proof -
  have "suffix (lstrip x) x" by (simp add: lstrip_def suffix_dropWhile)
  moreover have "prefix (rstrip y) y" for y
  proof -
    have "suffix (dropWhile is_space (rev y)) (rev y)" by (rule suffix_dropWhile)
    then show ?thesis by (simp add: rstrip_def suffix_to_prefix)
  qed
  ultimately show ?thesis
    unfolding strip_def
    by (meson prefix_imp_sublist sublist_order.order_trans suffix_imp_sublist)
qed

lemma strip_trimmed: "trimmed (strip x)"
proof (cases "strip x = []")
  case True
  then show ?thesis by (simp add: trimmed_def)
next
  case False
  let ?l = "lstrip x"
  from False have l: "?l \<noteq> []" by (auto simp: strip_def rstrip_def)
  then have hd: "\<not> is_space (hd ?l)" unfolding lstrip_def by (rule hd_dropWhile)
  have last: "\<not> is_space (last (strip x))"
    using rstrip_last[of ?l] False by (simp add: strip_def)
  have "rstrip ?l = take (length (rstrip ?l)) ?l"
  proof -
    have "suffix (dropWhile is_space (rev ?l)) (rev ?l)" by (rule suffix_dropWhile)
    then have "prefix (rstrip ?l) ?l" by (simp add: rstrip_def suffix_to_prefix)
    then show ?thesis by (metis append_eq_conv_conj prefix_def)
  qed
  then have "hd (strip x) = hd ?l"
    using False by (metis hd_take length_greater_0_conv strip_def)
  with hd last False show ?thesis by (simp add: trimmed_def)
qed

lemma strip_fixed: "trimmed x \<Longrightarrow> strip x = x"
proof (cases x)
  case Nil
  then show ?thesis by (simp add: strip_def lstrip_def rstrip_def)
next
  case (Cons c cs)
  assume "trimmed x"
  with Cons have "\<not> is_space c" "\<not> is_space (last x)" by (auto simp: trimmed_def)
  then have "lstrip x = x" "rstrip x = x"
    using Cons by (simp_all add: lstrip_def rstrip_fixed)
  then show ?thesis by (simp add: strip_def)
qed

subsection \<open>Patterns that need a hyphen or a full stop\<close>

lemma scan_no_match:
  "\<forall>bol s. suffix s x \<longrightarrow> m bol s = None \<Longrightarrow> re_scan m bol x = map Lit x"
proof (induction x arbitrary: bol)
  case Nil
  then show ?case by simp
next
  case (Cons c cs)
  have "m bol (c # cs) = None" using Cons.prems by blast
  moreover have "re_scan m (c = 10) cs = map Lit cs"
    by (rule Cons.IH) (use Cons.prems in \<open>auto simp: suffix_Cons\<close>)
  ultimately show ?case by simp
qed

lemma re_sub_no_match:
  "\<forall>bol s. suffix s x \<longrightarrow> m bol s = None \<Longrightarrow> re_sub m repl x = x"
  by (simp add: re_sub_def scan_no_match comp_def)

lemma hyphen_break_needs_hyphen: "45 \<notin> set s \<Longrightarrow> hyphen_break_re bol s = None"
  by (cases "(bol, s)" rule: hyphen_break_re.cases) auto

lemma ellipsis_needs_stop: "46 \<notin> set s \<Longrightarrow> ellipsis_re bol s = None"
proof -
  assume a: "46 \<notin> set s"
  have "expect 46 (skip_ws s) = None"
  proof (cases "skip_ws s")
    case Nil
    then show ?thesis by simp
  next
    case (Cons d ds)
    then have "d \<in> set s" by (metis list.set_intros(1) set_dropWhileD skip_ws_def)
    with a Cons show ?thesis by auto
  qed
  then show ?thesis by (simp add: ellipsis_re_def)
qed

lemma suffix_set: "suffix s x \<Longrightarrow> set s \<subseteq> set x"
  by (auto simp: suffix_def)

subsection \<open>The last four steps reach a fixed point\<close>

lemma blank_not_nl: "is_blank c \<Longrightarrow> is_space c \<and> c \<noteq> 10"
  by (auto simp: is_blank_def is_space_def)

lemma tail_steps_fixed:
  fixes x :: ustring
  defines "u \<equiv> strip (re_sub blanks2_re [32] (re_sub newlines4_re [10, 10]
                (join_nl (map rstrip (splitlines x)))))"
  shows "strip (re_sub blanks2_re [32] (re_sub newlines4_re [10, 10]
           (join_nl (map rstrip (splitlines u))))) = u"
proof -
  let ?l = "join_nl (map rstrip (splitlines x))"
  let ?n = "re_sub newlines4_re [10, 10] ?l"
  let ?b = "re_sub blanks2_re [32] ?n"
  have u: "u = strip ?b" by (simp add: u_def)
  have sub: "sublist u ?b" unfolding u by (rule strip_sublist)
  have nl10: "\<not> is_linebreak 32" "\<not> is_blank 10" by (simp_all add: is_linebreak_def is_blank_def)
  \<comment> \<open>only \<open>\n\<close> breaks lines\<close>
  have "only_nl ?l" by (rule lines_only_nl)
  then have "only_nl ?n"
    using run_sub_set[of 4 "\<lambda>c. c = 10" "[10, 10]" ?l]
    unfolding only_nl_def newlines4_re_def by auto
  then have "only_nl ?b"
    using run_sub_set[of 2 is_blank "[32]" ?n] nl10(1)
    unfolding only_nl_def blanks2_re_def by auto
  then have i1: "only_nl u"
    using sub unfolding only_nl_def by (meson set_mono_sublist subsetD)
  \<comment> \<open>no whitespace before \<open>\n\<close>\<close>
  have "no_adjacent space_before_nl ?l" by (rule lines_no_trailing)
  then have "no_adjacent space_before_nl ?n"
    unfolding newlines4_re_def
    by (intro run_sub_no_adjacent) (simp_all add: space_before_nl_def)
  then have "no_adjacent space_before_nl ?b"
    unfolding blanks2_re_def
    by (intro run_sub_no_adjacent) (auto simp: space_before_nl_def dest: blank_not_nl)
  then have i2: "no_adjacent space_before_nl u" using sub by (rule no_adjacent_sublist)
  \<comment> \<open>at most three \<open>\n\<close> in a row\<close>
  have "short_runs (\<lambda>c. c = 10) 4 ?n"
    unfolding newlines4_re_def by (intro run_sub_short) simp_all
  then have "short_runs (\<lambda>c. c = 10) 4 ?b"
    unfolding blanks2_re_def by (intro run_sub_other_short) (simp_all add: nl10)
  then have i3: "short_runs (\<lambda>c. c = 10) 4 u" using sub by (rule short_runs_sublist)
  \<comment> \<open>no two blanks in a row\<close>
  have "short_runs is_blank 2 ?b"
    unfolding blanks2_re_def by (intro run_sub_short) (simp_all add: is_blank_def)
  then have i4: "short_runs is_blank 2 u" using sub by (rule short_runs_sublist)
  have i5: "trimmed u" unfolding u by (rule strip_trimmed)
  have "join_nl (map rstrip (splitlines u)) = u" using i1 i2 i5 by (rule lines_fixed)
  moreover have "re_sub newlines4_re [10, 10] u = u"
    unfolding newlines4_re_def using i3 by (intro run_sub_fixed) simp_all
  moreover have "re_sub blanks2_re [32] u = u"
    unfolding blanks2_re_def using i4 by (intro run_sub_fixed) simp_all
  moreover have "strip u = u" using i5 by (rule strip_fixed)
  ultimately show ?thesis by simp
qed

subsection \<open>The patterns report matches that are not empty\<close>

lemma skip_ws_length: "length (skip_ws x) \<le> length x"
  by (simp add: skip_ws_def length_dropWhile_le)

lemma expect_length: "expect c x = Some r \<Longrightarrow> length x = Suc (length r)"
  by (cases x) (auto split: if_splits)

lemma expect_ci_length: "expect_ci p x = Some r \<Longrightarrow> length x = length p + length r"
  by (induction p x rule: expect_ci.induct) (auto split: if_splits)

lemma eol_backtrack_le: "eol_backtrack k t = Some j \<Longrightarrow> j \<le> k"
  by (induction k t rule: eol_backtrack.induct) (auto split: if_splits)

lemma ws_eol_le: "ws_eol t = Some j \<Longrightarrow> j \<le> length t"
  unfolding ws_eol_def
  using eol_backtrack_le length_takeWhile_le le_trans by blast

lemma pasal_number_alt_length: "pasal_number_alt r = Some (lbl, r3) \<Longrightarrow> length r3 \<le> length r"
proof -
  assume a: "pasal_number_alt r = Some (lbl, r3)"
  have d: "length (dropWhile P r) \<le> length r" for P by (rule length_dropWhile_le)
  show ?thesis
  proof (cases "takeWhile is_digit r = []")
    case True
    with a have "r3 = dropWhile is_roman_pasal r"
      by (auto simp: pasal_number_alt_def Let_def split: if_splits)
    then show ?thesis using d by simp
  next
    case False
    show ?thesis
    proof (cases "dropWhile is_digit r")
      case Nil
      with a False have "r3 = []" by (auto simp: pasal_number_alt_def Let_def)
      then show ?thesis by simp
    next
      case (Cons c cs)
      with a False have "r3 = cs \<or> r3 = c # cs"
        by (auto simp: pasal_number_alt_def Let_def split: if_splits)
      moreover have "Suc (length cs) \<le> length r" using d[of is_digit] Cons by simp
      ultimately show ?thesis by auto
    qed
  qed
qed

lemma hyphen_break_valid:
  "hyphen_break_re bol t = Some (n, g) \<Longrightarrow> 0 < n \<and> n \<le> length t"
proof (cases "(bol, t)" rule: hyphen_break_re.cases)
  case (1 bol' c d cs)
  assume "hyphen_break_re bol t = Some (n, g)"
  with 1 have "n = 2 + length (takeWhile is_space cs)" by (auto split: if_splits)
  with 1 length_takeWhile_le[of is_space cs] show ?thesis by simp
qed auto

lemma ellipsis_valid:
  assumes "ellipsis_re bol t = Some (n, g)"
  shows "0 < n \<and> n \<le> length t"
proof -
  from assms obtain r1 r2 r3 where e: "expect 46 (skip_ws t) = Some r1"
    "expect 46 (skip_ws r1) = Some r2" "expect 46 (skip_ws r2) = Some r3"
    and n: "n = length t - length (skip_ws r3)"
    by (auto simp: ellipsis_re_def split: option.splits)
  have "length (skip_ws r3) \<le> length r3" by (rule skip_ws_length)
  also have "length r3 < length (skip_ws r2)" using expect_length[OF e(3)] by simp
  also have "\<dots> \<le> length r2" by (rule skip_ws_length)
  also have "length r2 < length (skip_ws r1)" using expect_length[OF e(2)] by simp
  also have "\<dots> \<le> length r1" by (rule skip_ws_length)
  also have "length r1 < length (skip_ws t)" using expect_length[OF e(1)] by simp
  also have "\<dots> \<le> length t" by (rule skip_ws_length)
  finally show ?thesis using n by simp
qed

lemma run_valid:
  "1 \<le> k \<Longrightarrow> run_re cls k bol t = Some (n, g) \<Longrightarrow> 0 < n \<and> n \<le> length t"
  using length_takeWhile_le[of cls t] by (auto simp: run_re_def Let_def split: if_splits)

lemma AYAT_SPLIT_valid:
  assumes "AYAT_SPLIT_RE bol t = Some (n, g)"
  shows "0 < n \<and> n \<le> length t"
proof -
  from assms obtain r1 r3 where e: "expect 40 t = Some r1"
    "expect 41 (skip_ws (dropWhile is_digit (skip_ws r1))) = Some r3"
    and n: "n = length t - length r3"
    by (auto simp: AYAT_SPLIT_RE_def Let_def split: option.splits if_splits)
  have "length r3 < length (skip_ws (dropWhile is_digit (skip_ws r1)))"
    using expect_length[OF e(2)] by simp
  also have "\<dots> \<le> length (dropWhile is_digit (skip_ws r1))" by (rule skip_ws_length)
  also have "\<dots> \<le> length (skip_ws r1)" by (rule length_dropWhile_le)
  also have "\<dots> \<le> length r1" by (rule skip_ws_length)
  also have "length r1 < length t" using expect_length[OF e(1)] by simp
  finally show ?thesis using n by simp
qed

lemma PASAL_ANY_valid:
  assumes "PASAL_ANY_RE bol t = Some (n, g)"
  shows "0 < n \<and> n \<le> length t"
proof -
  from assms obtain r1 r3 k where e: "expect_ci (ustr ''Pasal'') (skip_ws t) = Some r1"
    "pasal_number_alt (skip_ws r1) = Some (g, r3)" "ws_eol r3 = Some k"
    and n: "n = length t - length r3 + k"
    by (auto simp: PASAL_ANY_RE_def split: option.splits if_splits)
  have "length r3 \<le> length (skip_ws r1)" using e(2) by (rule pasal_number_alt_length)
  also have "\<dots> \<le> length r1" by (rule skip_ws_length)
  also have "length r1 < length (skip_ws t)"
    using expect_ci_length[OF e(1)] by (simp add: ustr_def)
  also have "\<dots> \<le> length t" by (rule skip_ws_length)
  finally have "length r3 < length t" .
  with ws_eol_le[OF e(3)] n show ?thesis by simp
qed

lemma pasal_header_valid:
  assumes "pasal_header_re lbl bol t = Some (n, g)"
  shows "0 < n \<and> n \<le> length t"
proof -
  from assms obtain r1 r3 k where e: "expect_ci (ustr ''Pasal'') (skip_ws t) = Some r1"
    "expect_ci lbl (skip_ws r1) = Some r3" "ws_eol r3 = Some k"
    and n: "n = length t - length r3 + k"
    by (auto simp: pasal_header_re_def split: option.splits if_splits)
  have "length r3 \<le> length (skip_ws r1)" using expect_ci_length[OF e(2)] by simp
  also have "\<dots> \<le> length r1" by (rule skip_ws_length)
  also have "length r1 < length (skip_ws t)"
    using expect_ci_length[OF e(1)] by (simp add: ustr_def)
  also have "\<dots> \<le> length t" by (rule skip_ws_length)
  finally have "length r3 < length t" .
  with ws_eol_le[OF e(3)] n show ?thesis by simp
qed

subsection \<open>The ellipsis pattern and the text without whitespace\<close>

lemma dot_not_space: "\<not> is_space 46" "\<not> is_space 8230"
  by (simp_all add: is_space_def)

lemma nonspace_skip_ws: "nonspace (skip_ws s) = nonspace s"
  by (induction s) (auto simp: nonspace_def skip_ws_def)

lemma skip_ws_head: "skip_ws s = [] \<or> \<not> is_space (hd (skip_ws s))"
  unfolding skip_ws_def using hd_dropWhile by blast

lemma skip_ws_fixed: "s = [] \<or> \<not> is_space (hd s) \<Longrightarrow> skip_ws s = s"
  by (cases s) (auto simp: skip_ws_def)

lemma expect_skip_Some: "expect 46 (skip_ws s) = Some r \<Longrightarrow> nonspace s = 46 # nonspace r"
proof -
  assume "expect 46 (skip_ws s) = Some r"
  then have "skip_ws s = 46 # r" by (cases "skip_ws s") (auto split: if_splits)
  then have "nonspace (skip_ws s) = 46 # nonspace r" by (simp add: nonspace_def dot_not_space)
  then show ?thesis by (simp add: nonspace_skip_ws)
qed

lemma expect_skip_None: "expect 46 (skip_ws s) = None \<Longrightarrow> \<not> prefix [46] (nonspace s)"
proof (cases "skip_ws s")
  case Nil
  then have "nonspace (skip_ws s) = []" by (simp add: nonspace_def)
  then show ?thesis by (simp add: nonspace_skip_ws)
next
  case (Cons d ds)
  assume "expect 46 (skip_ws s) = None"
  with Cons have "d \<noteq> 46" by (auto split: if_splits)
  moreover have "\<not> is_space d" using skip_ws_head[of s] Cons by simp
  ultimately have "\<not> prefix [46] (nonspace (skip_ws s))" by (simp add: Cons nonspace_def)
  then show ?thesis by (simp add: nonspace_skip_ws)
qed

lemma ellipsis_iff: "ellipsis_re bol s = None \<longleftrightarrow> \<not> dots3 s"
proof (cases "expect 46 (skip_ws s)")
  case None
  then show ?thesis
    using expect_skip_None[OF None] by (auto simp: ellipsis_re_def dots3_def prefix_def)
next
  case (Some r1)
  note r1 = expect_skip_Some[OF Some]
  show ?thesis
  proof (cases "expect 46 (skip_ws r1)")
    case None
    then show ?thesis
      using expect_skip_None[OF None] Some r1 by (auto simp: ellipsis_re_def dots3_def prefix_def)
  next
    case s2: (Some r2)
    note r2 = expect_skip_Some[OF s2]
    show ?thesis
    proof (cases "expect 46 (skip_ws r2)")
      case None
      then show ?thesis
        using expect_skip_None[OF None] Some s2 r1 r2
        by (auto simp: ellipsis_re_def dots3_def prefix_def)
    next
      case s3: (Some r3)
      note r3 = expect_skip_Some[OF s3]
      show ?thesis using Some s2 s3 r1 r2 r3 by (simp add: ellipsis_re_def dots3_def)
    qed
  qed
qed

lemma skip_ws_suffix: "suffix (skip_ws s) s"
  by (simp add: skip_ws_def suffix_dropWhile)

lemma expect_suffix: "expect c s = Some r \<Longrightarrow> suffix r s \<and> length r < length s"
  by (cases s) (auto split: if_splits simp: suffix_def)

lemma ellipsis_rest:
  assumes "ellipsis_re bol t = Some (n, g)"
  shows "nonspace t = [46, 46, 46] @ nonspace (drop n t) \<and>
         (drop n t = [] \<or> \<not> is_space (hd (drop n t))) \<and> length (drop n t) < length t"
proof -
  from assms obtain r1 r2 r3 where e: "expect 46 (skip_ws t) = Some r1"
    "expect 46 (skip_ws r1) = Some r2" "expect 46 (skip_ws r2) = Some r3"
    and n: "n = length t - length (skip_ws r3)"
    by (auto simp: ellipsis_re_def split: option.splits)
  let ?rest = "skip_ws r3"
  have "suffix ?rest r3" by (rule skip_ws_suffix)
  also have "suffix r3 (skip_ws r2)" using expect_suffix[OF e(3)] by simp
  also have "suffix (skip_ws r2) r2" by (rule skip_ws_suffix)
  also have "suffix r2 (skip_ws r1)" using expect_suffix[OF e(2)] by simp
  also have "suffix (skip_ws r1) r1" by (rule skip_ws_suffix)
  also have "suffix r1 (skip_ws t)" using expect_suffix[OF e(1)] by simp
  also have "suffix (skip_ws t) t" by (rule skip_ws_suffix)
  finally have suf: "suffix ?rest t" .
  then obtain p where p: "t = p @ ?rest" by (auto simp: suffix_def)
  then have "n = length p" using n by simp
  with p have d: "drop n t = ?rest" by (metis append_eq_conv_conj)
  have "length ?rest \<le> length r3" by (rule skip_ws_length)
  also have "length r3 < length (skip_ws r2)" using expect_suffix[OF e(3)] by simp
  also have "\<dots> \<le> length r2" by (rule skip_ws_length)
  also have "\<dots> \<le> length (skip_ws r1)" using expect_suffix[OF e(2)] by simp
  also have "\<dots> \<le> length r1" by (rule skip_ws_length)
  also have "\<dots> \<le> length (skip_ws t)" using expect_suffix[OF e(1)] by simp
  also have "\<dots> \<le> length t" by (rule skip_ws_length)
  finally have len: "length ?rest < length t" .
  have "nonspace t = [46, 46, 46] @ nonspace ?rest"
    using expect_skip_Some[OF e(1)] expect_skip_Some[OF e(2)] expect_skip_Some[OF e(3)]
    by (simp add: nonspace_skip_ws)
  with d len skip_ws_head[of r3] show ?thesis by simp
qed

lemma ellipsis_bol: "re_scan ellipsis_re b t = re_scan ellipsis_re True t"
  by (rule re_scan_bol) (simp add: ellipsis_re_def)

lemma ellipsis_sub_Nil: "re_sub ellipsis_re repl [] = []"
  by (simp add: re_sub_def)

lemma ellipsis_sub_lit:
  assumes "\<not> dots3 (c # cs)"
  shows "re_sub ellipsis_re repl (c # cs) = c # re_sub ellipsis_re repl cs"
proof -
  from assms have "ellipsis_re True (c # cs) = None" by (simp add: ellipsis_iff)
  then show ?thesis
    unfolding re_sub_def by (simp add: ellipsis_bol[of "c = 10"])
qed

lemma ellipsis_sub_hit:
  assumes "dots3 t"
  shows "\<exists>rest. re_sub ellipsis_re repl t = repl @ re_sub ellipsis_re repl rest \<and>
           nonspace t = [46, 46, 46] @ nonspace rest \<and>
           (rest = [] \<or> \<not> is_space (hd rest)) \<and> length rest < length t \<and> suffix rest t"
proof -
  from assms obtain n g where m: "ellipsis_re True t = Some (n, g)"
    using ellipsis_iff[of True t] by (cases "ellipsis_re True t") auto
  from ellipsis_valid[OF m] have v: "0 < n" "n \<le> length t" by simp_all
  then obtain c cs where t: "t = c # cs" by (cases t) auto
  have "re_scan ellipsis_re True t =
      Hit (take n t) g # re_scan ellipsis_re (last (take n t) = 10) (drop n t)"
    using m v unfolding t by simp
  then have "re_sub ellipsis_re repl t = repl @ re_sub ellipsis_re repl (drop n t)"
    unfolding re_sub_def by (simp add: ellipsis_bol[of "last (take n t) = 10"])
  moreover have "suffix (drop n t) t" by (rule suffix_drop)
  ultimately show ?thesis using ellipsis_rest[OF m] by blast
qed

lemma ellipsis_sub_dots:
  assumes "q = [] \<or> \<not> is_space (hd q)"
  shows "re_sub ellipsis_re repl (46 # 46 # 46 # q) = repl @ re_sub ellipsis_re repl q"
proof -
  have sk: "skip_ws (46 # s) = 46 # s" for s by (simp add: skip_ws_def dot_not_space)
  have q: "skip_ws q = q" using assms by (rule skip_ws_fixed)
  let ?t = "46 # 46 # 46 # q"
  have m: "ellipsis_re True ?t = Some (3, [])" by (simp add: ellipsis_re_def sk q)
  have "re_scan ellipsis_re True ?t = Hit [46, 46, 46] [] # re_scan ellipsis_re False q"
    using m by simp
  then show ?thesis unfolding re_sub_def by (simp add: ellipsis_bol[of False])
qed

subsection \<open>The text after the ellipsis step\<close>

lemma collapse3_lit: "\<not> prefix [46, 46, 46] (c # r) \<Longrightarrow> collapse3 (c # r) = c # collapse3 r"
proof (cases r)
  case Nil
  then show ?thesis by simp
next
  case (Cons b r')
  assume a: "\<not> prefix [46, 46, 46] (c # r)"
  show ?thesis
  proof (cases r')
    case Nil
    with Cons show ?thesis by simp
  next
    case (Cons d r'')
    with a \<open>r = b # r'\<close> show ?thesis by auto
  qed
qed

lemma ellipsis_nonspace: "nonspace (re_sub ellipsis_re [8230] x) = collapse3 (nonspace x)"
proof (induction "length x" arbitrary: x rule: less_induct)
  case less
  show ?case
  proof (cases "dots3 x")
    case True
    from ellipsis_sub_hit[OF True, of "[8230]"] obtain rest where
      r: "re_sub ellipsis_re [8230] x = [8230] @ re_sub ellipsis_re [8230] rest"
      "nonspace x = [46, 46, 46] @ nonspace rest" "length rest < length x" by blast
    have ih: "nonspace (re_sub ellipsis_re [8230] rest) = collapse3 (nonspace rest)"
      using r(3) by (rule less.hyps)
    have "nonspace (re_sub ellipsis_re [8230] x) =
        8230 # nonspace (re_sub ellipsis_re [8230] rest)"
      by (simp add: r(1) nonspace_def dot_not_space)
    also have "\<dots> = collapse3 (nonspace x)" by (simp add: ih r(2))
    finally show ?thesis .
  next
    case False
    show ?thesis
    proof (cases x)
      case Nil
      then show ?thesis by (simp add: ellipsis_sub_Nil nonspace_def)
    next
      case (Cons c cs)
      have ih: "nonspace (re_sub ellipsis_re [8230] cs) = collapse3 (nonspace cs)"
        by (rule less.hyps) (simp add: Cons)
      have eq: "re_sub ellipsis_re [8230] x = c # re_sub ellipsis_re [8230] cs"
        using False unfolding Cons by (rule ellipsis_sub_lit)
      show ?thesis
      proof (cases "is_space c")
        case True
        then have "nonspace (re_sub ellipsis_re [8230] x) =
            nonspace (re_sub ellipsis_re [8230] cs)"
          by (simp add: eq nonspace_def)
        moreover have "nonspace x = nonspace cs" using True by (simp add: Cons nonspace_def)
        ultimately show ?thesis using ih by simp
      next
        case ns: False
        then have "nonspace x = c # nonspace cs" by (simp add: Cons nonspace_def)
        moreover from this False have "collapse3 (c # nonspace cs) = c # collapse3 (nonspace cs)"
          by (intro collapse3_lit) (simp add: dots3_def)
        moreover have "nonspace (re_sub ellipsis_re [8230] x) =
            c # nonspace (re_sub ellipsis_re [8230] cs)"
          using ns by (simp add: eq nonspace_def)
        ultimately show ?thesis using ih by simp
      qed
    qed
  qed
qed

lemma ellipsis_sub_hd:
  assumes "x \<noteq> []"
  shows "re_sub ellipsis_re [8230] x \<noteq> [] \<and>
         hd (re_sub ellipsis_re [8230] x) = (if dots3 x then 8230 else hd x)"
proof (cases "dots3 x")
  case True
  from ellipsis_sub_hit[OF True, of "[8230]"] show ?thesis using True by auto
next
  case False
  from assms obtain c cs where x: "x = c # cs" by (cases x) auto
  from False show ?thesis unfolding x by (simp add: ellipsis_sub_lit)
qed

lemma dots3_space: "is_space c \<Longrightarrow> dots3 (c # cs) = dots3 cs"
  by (simp add: dots3_def nonspace_def)

lemma ellipsis_no_space_after:
  "8230 \<notin> set x \<Longrightarrow> no_adjacent space_after_ellipsis (re_sub ellipsis_re [8230] x)"
proof (induction "length x" arbitrary: x rule: less_induct)
  case less
  show ?case
  proof (cases "dots3 x")
    case True
    from ellipsis_sub_hit[OF True, of "[8230]"] obtain rest where
      r: "re_sub ellipsis_re [8230] x = [8230] @ re_sub ellipsis_re [8230] rest"
      "rest = [] \<or> \<not> is_space (hd rest)" "length rest < length x" "suffix rest x" by blast
    have "8230 \<notin> set rest" using r(4) less.prems by (auto simp: suffix_def)
    then have ih: "no_adjacent space_after_ellipsis (re_sub ellipsis_re [8230] rest)"
      using r(3) less.hyps by blast
    have "\<not> is_space (hd (re_sub ellipsis_re [8230] rest))" if "rest \<noteq> []"
      using ellipsis_sub_hd[OF that] r(2) that by (auto simp: dot_not_space)
    moreover have "re_sub ellipsis_re [8230] rest = []" if "rest = []"
      unfolding that by (rule ellipsis_sub_Nil)
    ultimately show ?thesis
      using ih unfolding r(1)
      by (cases "rest = []") (simp_all add: no_adjacent_Cons space_after_ellipsis_def ellipsis_sub_hd)
  next
    case False
    show ?thesis
    proof (cases x)
      case Nil
      then show ?thesis by (simp add: ellipsis_sub_Nil)
    next
      case (Cons c cs)
      have ih: "no_adjacent space_after_ellipsis (re_sub ellipsis_re [8230] cs)"
        by (rule less.hyps) (use less.prems Cons in auto)
      have eq: "re_sub ellipsis_re [8230] x = c # re_sub ellipsis_re [8230] cs"
        using False unfolding Cons by (rule ellipsis_sub_lit)
      have "c \<noteq> 8230" using less.prems Cons by auto
      then show ?thesis using ih by (simp add: eq no_adjacent_Cons space_after_ellipsis_def)
    qed
  qed
qed

lemma ellipsis_no_space_before:
  "8230 \<notin> set x \<Longrightarrow> no_adjacent space_before_ellipsis (re_sub ellipsis_re [8230] x)"
proof (induction "length x" arbitrary: x rule: less_induct)
  case less
  show ?case
  proof (cases "dots3 x")
    case True
    from ellipsis_sub_hit[OF True, of "[8230]"] obtain rest where
      r: "re_sub ellipsis_re [8230] x = [8230] @ re_sub ellipsis_re [8230] rest"
      "length rest < length x" "suffix rest x" by blast
    have "8230 \<notin> set rest" using r(3) less.prems by (auto simp: suffix_def)
    then have ih: "no_adjacent space_before_ellipsis (re_sub ellipsis_re [8230] rest)"
      using r(2) less.hyps by blast
    then show ?thesis
      unfolding r(1) by (simp add: no_adjacent_Cons space_before_ellipsis_def dot_not_space)
  next
    case False
    show ?thesis
    proof (cases x)
      case Nil
      then show ?thesis by (simp add: ellipsis_sub_Nil)
    next
      case (Cons c cs)
      have ih: "no_adjacent space_before_ellipsis (re_sub ellipsis_re [8230] cs)"
        by (rule less.hyps) (use less.prems Cons in auto)
      have eq: "re_sub ellipsis_re [8230] x = c # re_sub ellipsis_re [8230] cs"
        using False unfolding Cons by (rule ellipsis_sub_lit)
      have "\<not> (is_space c \<and> hd (re_sub ellipsis_re [8230] cs) = 8230)" if cs: "cs \<noteq> []"
      proof
        assume a: "is_space c \<and> hd (re_sub ellipsis_re [8230] cs) = 8230"
        have "hd cs \<noteq> 8230" using less.prems Cons cs by (cases cs) auto
        with a ellipsis_sub_hd[OF cs] have "dots3 cs" by (auto split: if_splits)
        with a have "dots3 (c # cs)" by (simp add: dots3_space)
        with False Cons show False by simp
      qed
      then show ?thesis
        using ih by (cases "cs = []")
          (simp_all add: eq no_adjacent_Cons space_before_ellipsis_def ellipsis_sub_Nil)
    qed
  qed
qed

lemma collapse3_suffix: "suffix s (collapse3 k) \<Longrightarrow> \<exists>r. suffix r k \<and> s = collapse3 r"
proof (induction k rule: collapse3.induct)
  case (1 a b c r)
  show ?case
  proof (cases "a = 46 \<and> b = 46 \<and> c = 46")
    case True
    with 1(3) have "s = collapse3 (a # b # c # r) \<or> suffix s (collapse3 r)"
      by (auto simp: suffix_Cons)
    then show ?thesis
    proof
      assume "s = collapse3 (a # b # c # r)"
      then show ?thesis by blast
    next
      assume "suffix s (collapse3 r)"
      with 1(1)[OF True] obtain r' where "suffix r' r" "s = collapse3 r'" by blast
      then show ?thesis by (auto simp: suffix_Cons)
    qed
  next
    case False
    with 1(3) have "s = collapse3 (a # b # c # r) \<or> suffix s (collapse3 (b # c # r))"
      by (auto simp: suffix_Cons)
    then show ?thesis
    proof
      assume "s = collapse3 (a # b # c # r)"
      then show ?thesis by blast
    next
      assume "suffix s (collapse3 (b # c # r))"
      with 1(2)[OF False] obtain r' where "suffix r' (b # c # r)" "s = collapse3 r'" by blast
      then show ?thesis by (auto simp: suffix_Cons)
    qed
  qed
next
  case (2 a b)
  then have "s = [a, b] \<or> s = [b] \<or> s = []" by (auto simp: suffix_Cons)
  then show ?case
  proof (elim disjE)
    assume "s = [a, b]" then show ?thesis by (intro exI[of _ "[a, b]"]) simp
  next
    assume "s = [b]" then show ?thesis by (intro exI[of _ "[b]"]) (simp add: suffix_Cons)
  next
    assume "s = []" then show ?thesis by (intro exI[of _ "[]"]) simp
  qed
next
  case (3 a)
  then have "s = [a] \<or> s = []" by (auto simp: suffix_Cons)
  then show ?case
  proof
    assume "s = [a]" then show ?thesis by (intro exI[of _ "[a]"]) simp
  next
    assume "s = []" then show ?thesis by (intro exI[of _ "[]"]) simp
  qed
next
  case 4
  then show ?case by simp
qed

lemma expand_Cons:
  "expand_ellipsis (c # cs) = (if c = 8230 then [46, 46, 46] else [c]) @ expand_ellipsis cs"
  by (simp add: expand_ellipsis_def)

lemma expand_Nil: "expand_ellipsis [] = []"
  by (simp add: expand_ellipsis_def)

lemma expand_collapse3: "8230 \<notin> set r \<Longrightarrow> expand_ellipsis (collapse3 r) = r"
proof (induction r rule: collapse3.induct)
  case (1 a b c r)
  then show ?case by (auto simp: expand_Cons)
next
  case (2 a b)
  then show ?case by (simp add: expand_Cons expand_Nil)
next
  case (3 a)
  then show ?case by (simp add: expand_Cons expand_Nil)
next
  case 4
  then show ?case by (simp add: expand_Nil)
qed

lemma collapse3_settled:
  assumes "8230 \<notin> set k"
  shows "settled (collapse3 k)"
  unfolding settled_def
proof (intro allI impI)
  fix s assume s: "suffix s (collapse3 k)" "s \<noteq> []" "hd s \<noteq> 8230"
  from collapse3_suffix[OF s(1)] obtain r where r: "suffix r k" "s = collapse3 r" by blast
  then have st: "8230 \<notin> set r" using assms by (auto simp: suffix_def)
  have "\<not> prefix [46, 46, 46] r"
  proof
    assume "prefix [46, 46, 46] r"
    then obtain q where "r = 46 # 46 # 46 # q" by (auto simp: prefix_def)
    with r(2) s(3) show False by simp
  qed
  then show "\<not> prefix [46, 46, 46] (expand_ellipsis s)"
    unfolding r(2) by (simp add: expand_collapse3[OF st])
qed

subsection \<open>The whitespace steps keep the text without whitespace\<close>

lemma nonspace_append: "nonspace (a @ b) = nonspace a @ nonspace b"
  by (simp add: nonspace_def)

lemma nonspace_spaces: "\<forall>c\<in>set w. is_space c \<Longrightarrow> nonspace w = []"
  by (simp add: nonspace_def filter_empty_conv)

lemma rstrip_decomp: "\<exists>w. l = rstrip l @ w \<and> (\<forall>c\<in>set w. is_space c)"
proof -
  have "rev l = takeWhile is_space (rev l) @ dropWhile is_space (rev l)" by simp
  then have "l = rev (dropWhile is_space (rev l)) @ rev (takeWhile is_space (rev l))"
    by (metis rev_append rev_rev_ident)
  moreover have "\<forall>c\<in>set (rev (takeWhile is_space (rev l))). is_space c"
    by (auto dest: set_takeWhileD)
  ultimately show ?thesis unfolding rstrip_def by blast
qed

lemma rstrip_nonspace: "nonspace (rstrip l) = nonspace l"
proof -
  obtain w where w: "l = rstrip l @ w" "\<forall>c\<in>set w. is_space c" using rstrip_decomp by blast
  have "nonspace l = nonspace (rstrip l) @ nonspace w" by (subst w(1)) (rule nonspace_append)
  then show ?thesis using nonspace_spaces[OF w(2)] by simp
qed

lemma lstrip_nonspace: "nonspace (lstrip l) = nonspace l"
  using nonspace_skip_ws[of l] by (simp add: skip_ws_def lstrip_def)

lemma strip_nonspace: "nonspace (strip x) = nonspace x"
  by (simp add: strip_def rstrip_nonspace lstrip_nonspace)

lemma space_10: "is_space 10" "is_space 13" "is_space 32"
  by (simp_all add: is_space_def)

lemma join_nl_nonspace: "nonspace (join_nl ls) = concat (map nonspace ls)"
  by (induction ls rule: join_nl.induct) (simp_all add: nonspace_def space_10)

lemma lines_nonspace_from:
  "nonspace (join_nl (map rstrip (splitlines_from cur t))) = nonspace (cur @ t)"
proof (induction cur t rule: splitlines_from.induct)
  case (1 cur)
  have "nonspace [] = []" by (simp add: nonspace_def)
  then show ?case by (simp add: rstrip_nonspace)
next
  case (2 cur c cs)
  show ?case
  proof (cases "c = 13 \<and> (case cs of [] \<Rightarrow> False | d # _ \<Rightarrow> d = 10)")
    case True
    then obtain cs' where cs: "cs = 10 # cs'" by (cases cs) auto
    have eq: "splitlines_from cur (c # cs) = cur # splitlines_from [] (tl cs)"
      using True by simp
    have "nonspace (join_nl (map rstrip (splitlines_from [] (tl cs)))) = nonspace ([] @ tl cs)"
      using True by (rule "2.IH"(1))
    then have "concat (map nonspace (map rstrip (splitlines_from [] cs'))) = nonspace cs'"
      by (simp add: join_nl_nonspace cs)
    moreover have "nonspace (cur @ c # cs) = nonspace cur @ nonspace cs'"
      using True by (simp add: cs nonspace_def space_10)
    ultimately show ?thesis
      unfolding eq by (simp add: join_nl_nonspace rstrip_nonspace cs)
  next
    case False
    show ?thesis
    proof (cases "is_linebreak c")
      case True
      have eq: "splitlines_from cur (c # cs) = cur # splitlines_from [] cs"
        using False True by auto
      have "nonspace (join_nl (map rstrip (splitlines_from [] cs))) = nonspace ([] @ cs)"
        using False True by (rule "2.IH"(2))
      then have "concat (map nonspace (map rstrip (splitlines_from [] cs))) = nonspace cs"
        by (simp add: join_nl_nonspace)
      moreover have "nonspace (cur @ c # cs) = nonspace cur @ nonspace cs"
        using linebreak_is_space[OF True] by (simp add: nonspace_def)
      ultimately show ?thesis
        unfolding eq by (simp add: join_nl_nonspace rstrip_nonspace)
    next
      case nl: False
      have eq: "splitlines_from cur (c # cs) = splitlines_from (cur @ [c]) cs"
        using False nl by auto
      have "nonspace (join_nl (map rstrip (splitlines_from (cur @ [c]) cs))) =
          nonspace ((cur @ [c]) @ cs)"
        using False nl by (rule "2.IH"(3))
      then show ?thesis unfolding eq by simp
    qed
  qed
qed

lemma lines_nonspace: "nonspace (join_nl (map rstrip (splitlines x))) = nonspace x"
  using lines_nonspace_from[of "[]" x] by (simp add: splitlines_def)

lemma run_sub_nonspace:
  assumes "1 \<le> k" and "\<forall>c. cls c \<longrightarrow> is_space c" and "\<forall>c\<in>set repl. is_space c"
  shows "nonspace (re_sub (run_re cls k) repl z) = nonspace z"
proof (induction "length z" arbitrary: z rule: less_induct)
  case less
  show ?case
  proof (cases z)
    case Nil
    then show ?thesis by (simp add: run_sub_Nil)
  next
    case (Cons c cs)
    show ?thesis
    proof (cases "k \<le> length (takeWhile cls z)")
      case True
      let ?d = "dropWhile cls z"
      have ih: "nonspace (re_sub (run_re cls k) repl ?d) = nonspace ?d"
        by (rule less.hyps) (rule run_rest_shorter[OF assms(1) True])
      have eq: "re_sub (run_re cls k) repl z = repl @ re_sub (run_re cls k) repl ?d"
        using True unfolding Cons by (simp only: run_sub_Cons[OF assms(1)] if_True)
      have "\<forall>c\<in>set (takeWhile cls z). is_space c" using assms(2) by (auto dest: set_takeWhileD)
      then have "nonspace (takeWhile cls z) = []" by (rule nonspace_spaces)
      then have "nonspace (takeWhile cls z @ ?d) = nonspace ?d" by (simp only: nonspace_append) simp
      then have "nonspace z = nonspace ?d" by simp
      then show ?thesis
        unfolding eq by (simp add: nonspace_append nonspace_spaces[OF assms(3)] ih)
    next
      case False
      have eq: "re_sub (run_re cls k) repl z = c # re_sub (run_re cls k) repl cs"
        using False unfolding Cons by (simp only: run_sub_Cons[OF assms(1)] if_False)
      have "nonspace (re_sub (run_re cls k) repl cs) = nonspace cs"
        by (rule less.hyps) (simp add: Cons)
      then show ?thesis unfolding eq by (simp add: Cons nonspace_def)
    qed
  qed
qed

lemma tail_steps_nonspace:
  "nonspace (strip (re_sub blanks2_re [32] (re_sub newlines4_re [10, 10]
     (join_nl (map rstrip (splitlines x)))))) = nonspace x"
proof -
  have "nonspace (re_sub blanks2_re [32] z) = nonspace z" for z
    unfolding blanks2_re_def
    by (rule run_sub_nonspace) (auto simp: space_10 dest: blank_not_nl)
  moreover have "nonspace (re_sub newlines4_re [10, 10] z) = nonspace z" for z
    unfolding newlines4_re_def
    by (rule run_sub_nonspace) (auto simp: space_10)
  ultimately show ?thesis by (simp add: strip_nonspace lines_nonspace)
qed

subsection \<open>Neighbours across the line step\<close>

lemma rstrip_Nil: "rstrip [] = []"
  by (simp add: rstrip_def)

lemma rstrip_prefix: "prefix (rstrip l) l"
  using rstrip_decomp[of l] by (metis prefixI)

lemma rstrip_hd: "rstrip l \<noteq> [] \<Longrightarrow> hd (rstrip l) = hd l"
  using rstrip_decomp[of l] by (metis hd_append2)

lemma lines_hd:
  "join_nl (map rstrip (splitlines_from cur t)) \<noteq> [] \<Longrightarrow>
   hd (join_nl (map rstrip (splitlines_from cur t))) = 10 \<or>
   hd (join_nl (map rstrip (splitlines_from cur t))) = hd (cur @ t)"
proof (induction cur t rule: splitlines_from.induct)
  case (1 cur)
  then show ?case by (auto simp: rstrip_hd split: if_splits)
next
  case (2 cur c cs)
  let ?J = "join_nl (map rstrip (splitlines_from cur (c # cs)))"
  show ?case
  proof (cases "c = 13 \<and> (case cs of [] \<Rightarrow> False | d # _ \<Rightarrow> d = 10) \<or> is_linebreak c")
    case True
    then obtain rest where eq: "splitlines_from cur (c # cs) = cur # splitlines_from [] rest"
      by (cases "c = 13 \<and> (case cs of [] \<Rightarrow> False | d # _ \<Rightarrow> d = 10)") auto
    let ?K = "join_nl (map rstrip (splitlines_from [] rest))"
    have J: "?J = (if splitlines_from [] rest = [] then rstrip cur else rstrip cur @ 10 # ?K)"
      unfolding eq by (simp add: join_nl_Cons)
    show ?thesis
    proof (cases "rstrip cur = []")
      case True
      with J "2.prems" have "?J = 10 # ?K" by (auto split: if_splits)
      then show ?thesis by simp
    next
      case False
      then have "hd ?J = hd (rstrip cur)" using J by (auto split: if_splits)
      also have "\<dots> = hd cur" using False by (rule rstrip_hd)
      also have "\<dots> = hd (cur @ c # cs)" using False by (cases cur) (auto simp: rstrip_Nil)
      finally show ?thesis by simp
    qed
  next
    case False
    then have eq: "splitlines_from cur (c # cs) = splitlines_from (cur @ [c]) cs" by auto
    have "hd (join_nl (map rstrip (splitlines_from (cur @ [c]) cs))) = 10 \<or>
          hd (join_nl (map rstrip (splitlines_from (cur @ [c]) cs))) = hd ((cur @ [c]) @ cs)"
      using False "2.prems" unfolding eq by (intro "2.IH"(3)) auto
    then show ?thesis unfolding eq by simp
  qed
qed

lemma rstrip_next_space:
  assumes "no_adjacent R (cur @ c # cs)" and "is_space c" and "rstrip cur \<noteq> []"
  shows "\<exists>w. is_space w \<and> \<not> R (last (rstrip cur)) w"
proof -
  obtain w where w: "cur = rstrip cur @ w" "\<forall>d\<in>set w. is_space d"
    using rstrip_decomp by blast
  have e: "cur @ c # cs = rstrip cur @ (w @ c # cs)" using w(1) by simp
  have "no_adjacent R (rstrip cur @ (w @ c # cs))" using assms(1) unfolding e .
  then have "\<not> R (last (rstrip cur)) (hd (w @ c # cs))"
    using assms(3) by (simp add: no_adjacent_append)
  moreover have "is_space (hd (w @ c # cs))" using w(2) assms(2) by (cases w) auto
  ultimately show ?thesis by blast
qed

lemma lines_no_adjacent_from:
  assumes nn: "\<not> R 10 10"
    and before: "\<forall>a w. is_space w \<and> \<not> R a w \<longrightarrow> \<not> R a 10"
    and after: "\<forall>w b. is_space w \<and> \<not> R w b \<longrightarrow> \<not> R 10 b"
  shows "no_adjacent R (cur @ t) \<Longrightarrow>
         no_adjacent R (join_nl (map rstrip (splitlines_from cur t)))"
proof (induction cur t rule: splitlines_from.induct)
  case (1 cur)
  have "sublist (rstrip cur) cur" using rstrip_prefix by (rule prefix_imp_sublist)
  with 1 show ?case by (auto intro: no_adjacent_sublist)
next
  case (2 cur c cs)
  show ?case
  proof (cases "c = 13 \<and> (case cs of [] \<Rightarrow> False | d # _ \<Rightarrow> d = 10) \<or> is_linebreak c")
    case True
    \<comment> \<open>a line ends here; \<open>w\<close> is the last character of the line boundary\<close>
    have "\<exists>rest w. splitlines_from cur (c # cs) = cur # splitlines_from [] rest \<and>
            suffix (w # rest) (c # cs) \<and> is_space w \<and>
            no_adjacent R (join_nl (map rstrip (splitlines_from [] rest)))"
    proof (cases "c = 13 \<and> (case cs of [] \<Rightarrow> False | d # _ \<Rightarrow> d = 10)")
      case crlf: True
      then obtain cs' where cs: "cs = 10 # cs'" by (cases cs) auto
      have "suffix (tl cs) (cur @ c # cs)"
        unfolding cs list.sel by (intro suffix_appendI suffix_ConsI suffix_order.order_refl)
      then have "no_adjacent R ([] @ tl cs)"
        using "2.prems" by (auto intro: no_adjacent_sublist suffix_imp_sublist)
      then have "no_adjacent R (join_nl (map rstrip (splitlines_from [] (tl cs))))"
        by (rule "2.IH"(1)[OF crlf])
      moreover have "suffix (10 # tl cs) (c # cs)" by (simp add: cs suffix_Cons)
      moreover have "splitlines_from cur (c # cs) = cur # splitlines_from [] (tl cs)"
        using crlf by simp
      ultimately show ?thesis using space_10(1) by blast
    next
      case nocr: False
      with True have lb: "is_linebreak c" by simp
      have "suffix cs (cur @ c # cs)"
        by (intro suffix_appendI suffix_ConsI suffix_order.order_refl)
      then have "no_adjacent R ([] @ cs)"
        using "2.prems" by (auto intro: no_adjacent_sublist suffix_imp_sublist)
      then have "no_adjacent R (join_nl (map rstrip (splitlines_from [] cs)))"
        by (rule "2.IH"(2)[OF nocr lb])
      moreover have "splitlines_from cur (c # cs) = cur # splitlines_from [] cs"
        using nocr lb by auto
      ultimately show ?thesis using linebreak_is_space[OF lb] by blast
    qed
    then obtain rest w where eq: "splitlines_from cur (c # cs) = cur # splitlines_from [] rest"
      and suf: "suffix (w # rest) (c # cs)" and w: "is_space w"
      and ih: "no_adjacent R (join_nl (map rstrip (splitlines_from [] rest)))" by blast
    let ?K = "join_nl (map rstrip (splitlines_from [] rest))"
    have sp: "is_space c" using True space_10(2) linebreak_is_space by blast
    have pre: "no_adjacent R (rstrip cur)"
    proof -
      have "sublist (rstrip cur) (cur @ c # cs)"
        by (intro prefix_imp_sublist prefix_prefix rstrip_prefix)
      with "2.prems" show ?thesis by (rule no_adjacent_sublist)
    qed
    have l10: "\<not> R (last (rstrip cur)) 10" if "rstrip cur \<noteq> []"
      using rstrip_next_space[OF "2.prems" sp that] before by blast
    have k10: "\<not> R 10 (hd ?K)" if k: "?K \<noteq> []"
    proof -
      from lines_hd[OF k] have "hd ?K = 10 \<or> hd ?K = hd rest" by simp
      then show ?thesis
      proof
        assume "hd ?K = 10"
        then show ?thesis using nn by simp
      next
        assume h: "hd ?K = hd rest"
        have "rest \<noteq> []"
        proof
          assume "rest = []"
          then have "?K = []" by simp
          with k show False by simp
        qed
        then obtain b rest' where r: "rest = b # rest'" by (cases rest) auto
        from suf obtain p where p: "c # cs = p @ w # b # rest'"
          unfolding r by (auto simp: suffix_def)
        have "cur @ c # cs = (cur @ p) @ [w, b] @ rest'" by (simp add: p)
        then have "sublist [w, b] (cur @ c # cs)" unfolding sublist_def by blast
        with "2.prems" have "no_adjacent R [w, b]" by (rule no_adjacent_sublist)
        then have "\<not> R w b" by simp
        with w after have "\<not> R 10 b" by blast
        then show ?thesis using h r by simp
      qed
    qed
    show ?thesis
    proof (cases "splitlines_from [] rest = []")
      case True
      then show ?thesis unfolding eq using pre by (simp add: join_nl_Cons)
    next
      case False
      have "no_adjacent R (10 # ?K)" using ih k10 by (simp add: no_adjacent_Cons)
      then have "no_adjacent R (rstrip cur @ 10 # ?K)"
        using pre l10 by (simp add: no_adjacent_append)
      then show ?thesis unfolding eq using False by (simp add: join_nl_Cons)
    qed
  next
    case False
    then have eq: "splitlines_from cur (c # cs) = splitlines_from (cur @ [c]) cs" by auto
    have "no_adjacent R (join_nl (map rstrip (splitlines_from (cur @ [c]) cs)))"
      using False "2.prems" by (intro "2.IH"(3)) auto
    then show ?thesis unfolding eq .
  qed
qed

lemma lines_no_adjacent:
  assumes "\<not> R 10 10"
    and "\<forall>a w. is_space w \<and> \<not> R a w \<longrightarrow> \<not> R a 10"
    and "\<forall>w b. is_space w \<and> \<not> R w b \<longrightarrow> \<not> R 10 b"
    and "no_adjacent R x"
  shows "no_adjacent R (join_nl (map rstrip (splitlines x)))"
  using lines_no_adjacent_from[OF assms(1-3), of "[]" x] assms(4) by (simp add: splitlines_def)

subsection \<open>The whitespace steps and the neighbours of an ellipsis\<close>

lemma tail_steps_no_adjacent:
  assumes nn: "\<not> R 10 10"
    and before: "\<forall>a w v. is_space w \<and> is_space v \<and> \<not> R a w \<longrightarrow> \<not> R a v"
    and after: "\<forall>w v b. is_space w \<and> is_space v \<and> \<not> R w b \<longrightarrow> \<not> R v b"
    and x: "no_adjacent R x"
  shows "no_adjacent R (strip (re_sub blanks2_re [32] (re_sub newlines4_re [10, 10]
           (join_nl (map rstrip (splitlines x))))))"
proof -
  let ?l = "join_nl (map rstrip (splitlines x))"
  let ?n = "re_sub newlines4_re [10, 10] ?l"
  let ?b = "re_sub blanks2_re [32] ?n"
  have b10: "\<forall>a w. is_space w \<and> \<not> R a w \<longrightarrow> \<not> R a 10"
    using before space_10(1) by blast
  have a10: "\<forall>w b. is_space w \<and> \<not> R w b \<longrightarrow> \<not> R 10 b"
    using after space_10(1) by blast
  have "no_adjacent R ?l" using nn b10 a10 x by (rule lines_no_adjacent)
  then have "no_adjacent R ?n"
    unfolding newlines4_re_def by (intro run_sub_no_adjacent) (simp_all add: nn)
  moreover have "\<forall>a c. is_blank c \<and> \<not> R a c \<longrightarrow> \<not> R a (hd [32])"
    using before space_10(3) blank_not_nl by (metis list.sel(1))
  moreover have "\<forall>c b. is_blank c \<and> \<not> R c b \<longrightarrow> \<not> R (last [32]) b"
    using after space_10(3) blank_not_nl by (metis last.simps)
  ultimately have "no_adjacent R ?b"
    unfolding blanks2_re_def by (intro run_sub_no_adjacent) simp_all
  then show ?thesis using strip_sublist by (rule no_adjacent_sublist)
qed

lemma tail_steps_set:
  "set (strip (re_sub blanks2_re [32] (re_sub newlines4_re [10, 10]
     (join_nl (map rstrip (splitlines x)))))) \<subseteq> set x \<union> {10, 32}"
proof -
  let ?l = "join_nl (map rstrip (splitlines x))"
  let ?n = "re_sub newlines4_re [10, 10] ?l"
  let ?b = "re_sub blanks2_re [32] ?n"
  have "set ?b \<subseteq> set x \<union> {10, 32}"
    using lines_set[of x] run_sub_set[of 4 "\<lambda>c. c = 10" "[10, 10]" ?l]
      run_sub_set[of 2 is_blank "[32]" ?n]
    unfolding newlines4_re_def blanks2_re_def by auto
  moreover have "set (strip ?b) \<subseteq> set ?b" using strip_sublist by (rule set_mono_sublist)
  ultimately show ?thesis by blast
qed

lemma ellipsis_sub_set: "set (re_sub ellipsis_re [8230] x) \<subseteq> set x \<union> {8230}"
proof (induction "length x" arbitrary: x rule: less_induct)
  case less
  show ?case
  proof (cases "dots3 x")
    case True
    from ellipsis_sub_hit[OF True, of "[8230]"] obtain rest where
      r: "re_sub ellipsis_re [8230] x = [8230] @ re_sub ellipsis_re [8230] rest"
      "length rest < length x" "suffix rest x" by blast
    have "set (re_sub ellipsis_re [8230] rest) \<subseteq> set rest \<union> {8230}"
      using r(2) by (rule less.hyps)
    moreover have "set rest \<subseteq> set x" using r(3) by (rule suffix_set)
    ultimately show ?thesis unfolding r(1) by auto
  next
    case False
    show ?thesis
    proof (cases x)
      case Nil
      then show ?thesis by (simp add: ellipsis_sub_Nil)
    next
      case (Cons c cs)
      have "set (re_sub ellipsis_re [8230] cs) \<subseteq> set cs \<union> {8230}"
        by (rule less.hyps) (simp add: Cons)
      moreover have "re_sub ellipsis_re [8230] x = c # re_sub ellipsis_re [8230] cs"
        using False unfolding Cons by (rule ellipsis_sub_lit)
      ultimately show ?thesis by (auto simp: Cons)
    qed
  qed
qed

subsection \<open>Expanding and collapsing again\<close>

lemma expand_nonspace: "nonspace (expand_ellipsis s) = expand_ellipsis (nonspace s)"
proof (induction s)
  case Nil
  then show ?case by (simp add: expand_Nil nonspace_def)
next
  case (Cons c cs)
  show ?case
  proof (cases "c = 8230")
    case True
    have "nonspace (expand_ellipsis (c # cs)) = [46, 46, 46] @ nonspace (expand_ellipsis cs)"
      by (simp add: expand_Cons True nonspace_def dot_not_space)
    moreover have "nonspace (c # cs) = c # nonspace cs"
      by (simp add: True nonspace_def dot_not_space)
    ultimately show ?thesis by (simp add: Cons.IH expand_Cons True)
  next
    case False
    then have e: "expand_ellipsis (c # cs) = c # expand_ellipsis cs" by (simp add: expand_Cons)
    show ?thesis
    proof (cases "is_space c")
      case True
      then show ?thesis
        by (simp add: e nonspace_def Cons.IH[unfolded nonspace_def])
    next
      case ns: False
      then show ?thesis
        using False by (simp add: e nonspace_def expand_Cons Cons.IH[unfolded nonspace_def])
    qed
  qed
qed

lemma spaces_then_ellipsis:
  "is_space c \<Longrightarrow> no_adjacent space_before_ellipsis (c # cs) \<Longrightarrow>
   nonspace (c # cs) = [] \<or> hd (nonspace (c # cs)) \<noteq> 8230"
proof (induction cs arbitrary: c)
  case Nil
  then show ?case by (simp add: nonspace_def)
next
  case (Cons d ds)
  show ?case
  proof (cases "is_space d")
    case True
    have "nonspace (d # ds) = [] \<or> hd (nonspace (d # ds)) \<noteq> 8230"
      using True Cons.prems(2) by (intro Cons.IH) simp_all
    moreover have "nonspace (c # d # ds) = nonspace (d # ds)"
      using Cons.prems(1) by (simp add: nonspace_def)
    ultimately show ?thesis by simp
  next
    case False
    from Cons.prems have "d \<noteq> 8230" by (simp add: space_before_ellipsis_def)
    moreover have "nonspace (c # d # ds) = d # nonspace ds"
      using Cons.prems(1) False by (simp add: nonspace_def)
    ultimately show ?thesis by simp
  qed
qed

lemma settled_suffix: "settled k \<Longrightarrow> suffix s k \<Longrightarrow> settled s"
  unfolding settled_def using suffix_order.order_trans by blast

lemma nonspace_suffix: "suffix (nonspace cs) (nonspace (c # cs))"
  by (simp add: nonspace_def suffix_Cons)

lemma ellipsis_restores:
  "no_adjacent space_before_ellipsis u \<Longrightarrow>
   no_adjacent space_after_ellipsis u \<Longrightarrow> settled (nonspace u) \<Longrightarrow>
   re_sub ellipsis_re [8230] (expand_ellipsis u) = u"
proof (induction u)
  case Nil
  then show ?case by (simp add: expand_Nil ellipsis_sub_Nil)
next
  case (Cons c cs)
  have ih: "re_sub ellipsis_re [8230] (expand_ellipsis cs) = cs"
  proof (rule Cons.IH)
    show "no_adjacent space_before_ellipsis cs"
      using Cons.prems(1) by (simp add: no_adjacent_Cons)
    show "no_adjacent space_after_ellipsis cs"
      using Cons.prems(2) by (simp add: no_adjacent_Cons)
    show "settled (nonspace cs)"
      using Cons.prems(3) nonspace_suffix by (rule settled_suffix)
  qed
  show ?case
  proof (cases "c = 8230")
    case True
    let ?q = "expand_ellipsis cs"
    have q: "?q = [] \<or> \<not> is_space (hd ?q)"
    proof (cases cs)
      case Nil
      then show ?thesis by (simp add: expand_Nil)
    next
      case (Cons d ds)
      with Cons.prems(2) True have d: "\<not> is_space d"
        by (simp add: space_after_ellipsis_def)
      have "hd (expand_ellipsis (d # ds)) = 46 \<or> hd (expand_ellipsis (d # ds)) = d"
        by (simp add: expand_Cons)
      then show ?thesis using d Cons by (auto simp: dot_not_space)
    qed
    have "expand_ellipsis (c # cs) = 46 # 46 # 46 # ?q"
      by (simp add: expand_Cons True)
    then show ?thesis using ellipsis_sub_dots[OF q, of "[8230]"] ih True by simp
  next
    case False
    then have e: "expand_ellipsis (c # cs) = c # expand_ellipsis cs" by (simp add: expand_Cons)
    let ?k = "nonspace (c # cs)"
    have "\<not> dots3 (expand_ellipsis (c # cs))"
    proof (cases "?k = [] \<or> hd ?k \<noteq> 8230")
      case True
      then have "\<not> prefix [46, 46, 46] (expand_ellipsis ?k)"
      proof
        assume "?k = []"
        then show ?thesis by (simp add: expand_Nil)
      next
        assume h: "hd ?k \<noteq> 8230"
        show ?thesis
        proof (cases "?k = []")
          case True
          then show ?thesis by (simp add: expand_Nil)
        next
          case ne: False
          with Cons.prems(3) h show ?thesis unfolding settled_def by blast
        qed
      qed
      then show ?thesis unfolding dots3_def by (simp add: expand_nonspace)
    next
      case bad: False
      have "is_space c"
      proof (rule ccontr)
        assume "\<not> is_space c"
        then have "?k = c # nonspace cs" by (simp add: nonspace_def)
        with bad False show False by simp
      qed
      from spaces_then_ellipsis[OF this Cons.prems(1)] bad show ?thesis by blast
    qed
    then have "re_sub ellipsis_re [8230] (c # expand_ellipsis cs) =
        c # re_sub ellipsis_re [8230] (expand_ellipsis cs)"
      unfolding e by (intro ellipsis_sub_lit) simp
    then show ?thesis by (simp add: e ih)
  qed
qed

lemma expand_set: "set (expand_ellipsis u) \<subseteq> set u \<union> {46}"
  by (induction u) (auto simp: expand_Cons expand_Nil)

subsection \<open>Cleaning twice\<close>

text \<open>
  Claim C3, as amended. Cleaning is idempotent on every text \<open>t\<close> such that, first, the
  text after steps 1 and 2 (the removal of \<open>NUL\<close> and the normalization) has no
  hyphen-minus and no ellipsis character, and second, steps 1 and 2 do nothing to the
  cleaned text but write each of its ellipses as three full stops. Then step 3 changes
  nothing in either cleaning; in the second cleaning step 4 collapses the full stops of
  each ellipsis again, since steps 5 to 8 have brought no whitespace next to an ellipsis
  and no three full stops together; and the result of steps 5 to 8 is a text that each
  of them leaves as it is. (The normalization \<open>NFKC\<close> leaves no ellipsis character in
  any text, and on a text of ASCII characters and ellipses it only writes the ellipses
  as full stops.)
\<close>

theorem minimal_clean_idempotent_without_hyphen:
  assumes "45 \<notin> set (normalize_NFKC L (filter (\<lambda>c. c \<noteq> 0) t))"
    and "8230 \<notin> set (normalize_NFKC L (filter (\<lambda>c. c \<noteq> 0) t))"
    and "normalize_NFKC L (filter (\<lambda>c. c \<noteq> 0) (minimal_clean L t)) =
           expand_ellipsis (minimal_clean L t)"
  shows "minimal_clean L (minimal_clean L t) = minimal_clean L t"
proof -
  define x where "x = normalize_NFKC L (filter (\<lambda>c. c \<noteq> 0) t)"
  define e where "e = re_sub ellipsis_re [8230] x"
  define u where "u = strip (re_sub blanks2_re [32] (re_sub newlines4_re [10, 10]
                         (join_nl (map rstrip (splitlines e)))))"
  \<comment> \<open>the first cleaning\<close>
  have x45: "45 \<notin> set x" and x8230: "8230 \<notin> set x" using assms(1,2) by (simp_all add: x_def)
  have s3: "re_sub hyphen_break_re [] x = x"
    by (rule re_sub_no_match) (use x45 suffix_set hyphen_break_needs_hyphen in blast)
  have first: "minimal_clean L t = u"
    unfolding minimal_clean_def Let_def u_def e_def x_def[symmetric] s3 ..
  \<comment> \<open>the cleaned text\<close>
  have se: "set e \<subseteq> set x \<union> {8230}" unfolding e_def by (rule ellipsis_sub_set)
  have su: "set u \<subseteq> set e \<union> {10, 32}" unfolding u_def by (rule tail_steps_set)
  have u45: "45 \<notin> set u"
  proof
    assume "45 \<in> set u"
    with su have "45 \<in> set e \<union> {10, 32}" by blast
    then have "45 \<in> set e" by simp
    with se have "45 \<in> set x \<union> {8230}" by blast
    then show False using x45 by simp
  qed
  have sp: "\<not> is_space 8230" by (rule dot_not_space)
  have "no_adjacent space_before_ellipsis e"
    unfolding e_def using x8230 by (rule ellipsis_no_space_before)
  then have c1: "no_adjacent space_before_ellipsis u"
    unfolding u_def
    by (intro tail_steps_no_adjacent) (use sp in \<open>auto simp: space_before_ellipsis_def\<close>)
  have "no_adjacent space_after_ellipsis e"
    unfolding e_def using x8230 by (rule ellipsis_no_space_after)
  then have c2: "no_adjacent space_after_ellipsis u"
    unfolding u_def
    by (intro tail_steps_no_adjacent) (use sp in \<open>auto simp: space_after_ellipsis_def\<close>)
  have "nonspace u = nonspace e" unfolding u_def by (rule tail_steps_nonspace)
  also have "\<dots> = collapse3 (nonspace x)" unfolding e_def by (rule ellipsis_nonspace)
  finally have nu: "nonspace u = collapse3 (nonspace x)" .
  have "8230 \<notin> set (nonspace x)" using x8230 by (simp add: nonspace_def)
  then have st: "settled (nonspace u)" unfolding nu by (rule collapse3_settled)
  \<comment> \<open>the second cleaning\<close>
  have s2: "normalize_NFKC L (filter (\<lambda>c. c \<noteq> 0) u) = expand_ellipsis u"
    using assms(3) by (simp only: first)
  have "45 \<notin> set (expand_ellipsis u)"
  proof
    assume "45 \<in> set (expand_ellipsis u)"
    with expand_set[of u] have "45 \<in> set u \<union> {46}" by blast
    then show False using u45 by simp
  qed
  then have s3': "re_sub hyphen_break_re [] (expand_ellipsis u) = expand_ellipsis u"
    by (intro re_sub_no_match) (use suffix_set hyphen_break_needs_hyphen in blast)
  have s4': "re_sub ellipsis_re [8230] (expand_ellipsis u) = u"
    using c1 c2 st by (rule ellipsis_restores)
  have "minimal_clean L u = strip (re_sub blanks2_re [32] (re_sub newlines4_re [10, 10]
                         (join_nl (map rstrip (splitlines u)))))"
    unfolding minimal_clean_def Let_def s2 s3' s4' ..
  also have "\<dots> = u" unfolding u_def by (rule tail_steps_fixed)
  finally show ?thesis by (simp only: first)
qed

theorem minimal_clean_idempotent_without_hyphen_witness:
  "45 \<notin> set (normalize_NFKC example_lib
      (filter (\<lambda>c. c \<noteq> 0) (ustr ''a . .  . b '' @ [13, 10] @ ustr ''.. .''))) \<and>
   8230 \<notin> set (normalize_NFKC example_lib
      (filter (\<lambda>c. c \<noteq> 0) (ustr ''a . .  . b '' @ [13, 10] @ ustr ''.. .''))) \<and>
   minimal_clean example_lib (ustr ''a . .  . b '' @ [13, 10] @ ustr ''.. .'') =
     [97, 8230, 98, 8230] \<and>
   normalize_NFKC example_lib (filter (\<lambda>c. c \<noteq> 0) [97, 8230, 98, 8230]) =
     expand_ellipsis [97, 8230, 98, 8230] \<and>
   minimal_clean example_lib [97, 8230, 98, 8230] = [97, 8230, 98, 8230]"
proof -
  let ?t = "ustr ''a . .  . b '' @ [13, 10] @ ustr ''.. .''"
  have h1: "45 \<notin> set (normalize_NFKC example_lib (filter (\<lambda>c. c \<noteq> 0) ?t))"
    by (simp add: text_defs flow_defs)
  have h2: "8230 \<notin> set (normalize_NFKC example_lib (filter (\<lambda>c. c \<noteq> 0) ?t))"
    by (simp add: text_defs flow_defs)
  have e: "minimal_clean example_lib ?t = [97, 8230, 98, 8230]"
    by (simp add: text_defs scan_defs flow_defs)
  have h3: "normalize_NFKC example_lib (filter (\<lambda>c. c \<noteq> 0) [97, 8230, 98, 8230]) =
      expand_ellipsis [97, 8230, 98, 8230]"
    by (simp add: text_defs expand_ellipsis_def)
  from minimal_clean_idempotent_without_hyphen[of example_lib ?t] h1 h2 h3 e
  show ?thesis by simp
qed

text \<open>
  Claim C3 as stated fails: stripping the whitespace at the end of a line can leave a
  hyphen before the line break, which only a second cleaning joins.
\<close>

theorem hyphen_at_line_end_joined_later:
  "minimal_clean example_lib (ustr ''a- '' @ [10] @ ustr ''b'') = ustr ''a-'' @ [10] @ ustr ''b'' \<and>
   minimal_clean example_lib (minimal_clean example_lib (ustr ''a- '' @ [10] @ ustr ''b'')) =
     ustr ''ab'' \<and>
   minimal_clean example_lib (minimal_clean example_lib (ustr ''a- '' @ [10] @ ustr ''b'')) \<noteq>
     minimal_clean example_lib (ustr ''a- '' @ [10] @ ustr ''b'')"
proof -
  have a: "minimal_clean example_lib (ustr ''a- '' @ [10] @ ustr ''b'') =
      ustr ''a-'' @ [10] @ ustr ''b''"
    by (simp add: text_defs scan_defs flow_defs)
  have b: "minimal_clean example_lib (ustr ''a-'' @ [10] @ ustr ''b'') = ustr ''ab''"
    by (simp add: text_defs scan_defs flow_defs)
  show ?thesis unfolding a b by (simp add: ustr_def)
qed

subsection \<open>The normalized text reaches the output\<close>

text \<open>
  Claim C9, as amended. Step 2 is the compatibility normalization \<open>NFKC\<close> of the
  library, and what it writes is what cleaning returns wherever the later steps find
  nothing to do: a text whose form after steps 1 and 2 has no whitespace, no
  hyphen-minus and no full stop is cleaned to exactly that form. So a compatibility
  character that \<open>NFKC\<close> replaces, such as a fullwidth digit or a ligature, is replaced
  in the cleaned text.
\<close>

theorem cleaning_returns_the_normalized_text:
  assumes "\<forall>c\<in>set (normalize_NFKC L (filter (\<lambda>c. c \<noteq> 0) t)).
             \<not> is_space c \<and> c \<noteq> 45 \<and> c \<noteq> 46"
  shows "minimal_clean L t = normalize_NFKC L (filter (\<lambda>c. c \<noteq> 0) t)"
proof -
  define s where "s = normalize_NFKC L (filter (\<lambda>c. c \<noteq> 0) t)"
  have a: "\<forall>c\<in>set s. \<not> is_space c \<and> c \<noteq> 45 \<and> c \<noteq> 46" using assms by (simp add: s_def)
  have sp10: "is_space 10" "is_space 32" "is_space 9" by (simp_all add: is_space_def)
  have n10: "10 \<notin> set s" "45 \<notin> set s" "46 \<notin> set s" using a sp10 by auto
  have s3: "re_sub hyphen_break_re [] s = s"
    by (rule re_sub_no_match) (use n10(2) suffix_set hyphen_break_needs_hyphen in blast)
  have s4: "re_sub ellipsis_re [8230] s = s"
    by (rule re_sub_no_match) (use n10(3) suffix_set ellipsis_needs_stop in blast)
  have tr: "trimmed s"
    unfolding trimmed_def using a by (cases "s = []") (simp_all add: hd_in_set last_in_set)
  have "only_nl s" unfolding only_nl_def using a linebreak_is_space by blast
  moreover have "no_adjacent space_before_nl s"
    by (rule no_adjacent_second) (use n10(1) in \<open>auto simp: space_before_nl_def\<close>)
  ultimately have s5: "join_nl (map rstrip (splitlines s)) = s" using tr by (rule lines_fixed)
  have tw: "takeWhile P z = []" if "\<forall>c. P c \<longrightarrow> is_space c" "suffix z s" for P z
  proof (cases z)
    case Nil
    then show ?thesis by simp
  next
    case (Cons c cs)
    then have "c \<in> set s" using that(2) suffix_set by fastforce
    with a that(1) Cons show ?thesis by auto
  qed
  have "short_runs (\<lambda>c. c = 10) 4 s"
    unfolding short_runs_def using tw[of "\<lambda>c. c = 10"] sp10(1) by simp
  then have s6: "re_sub newlines4_re [10, 10] s = s"
    unfolding newlines4_re_def by (intro run_sub_fixed) simp_all
  have "short_runs is_blank 2 s"
    unfolding short_runs_def using tw[of is_blank] blank_not_nl by simp
  then have s7: "re_sub blanks2_re [32] s = s"
    unfolding blanks2_re_def by (intro run_sub_fixed) simp_all
  have s8: "strip s = s" using tr by (rule strip_fixed)
  show ?thesis
    unfolding minimal_clean_def Let_def s_def[symmetric] s3 s4 s5 s6 s7 s8 ..
qed

theorem cleaning_returns_the_normalized_text_witness:
  "normalize_NFKC example_lib (filter (\<lambda>c. c \<noteq> 0) [65299, 0, 64257]) = ustr ''3fi'' \<and>
   \<not> is_space 51 \<and> \<not> is_space 102 \<and> \<not> is_space 105 \<and>
   minimal_clean example_lib [65299, 0, 64257] = ustr ''3fi''"
proof -
  have n: "normalize_NFKC example_lib (filter (\<lambda>c. c \<noteq> 0) [65299, 0, 64257]) = ustr ''3fi''"
    by (simp add: text_defs)
  have h: "\<forall>c\<in>set (normalize_NFKC example_lib (filter (\<lambda>c. c \<noteq> 0) [65299, 0, 64257])).
      \<not> is_space c \<and> c \<noteq> 45 \<and> c \<noteq> 46"
    unfolding n by (simp add: text_defs)
  have sp: "\<not> is_space 51" "\<not> is_space 102" "\<not> is_space 105"
    by (simp_all add: is_space_def)
  from cleaning_returns_the_normalized_text[OF h] n sp show ?thesis by simp
qed

text \<open>
  Claim C9 as stated fails: the normalization is \<open>NFKC\<close>, which replaces the fullwidth
  digit one by the digit \<open>1\<close> and the ligature fi by the letters \<open>fi\<close>, and cleaning
  returns the replaced text.
\<close>

theorem compatibility_characters_are_replaced:
  "normalize_NFKC example_lib [65297] = [49] \<and> minimal_clean example_lib [65297] = [49] \<and>
   minimal_clean example_lib [64257] = ustr ''fi''"
  by (simp add: text_defs scan_defs flow_defs)

subsection \<open>Blocks and their header lines\<close>

lemma chained_Cons:
  "chained ((s, e, g) # ms) n \<longleftrightarrow>
     s < e \<and> (if ms = [] then e \<le> n else e \<le> fst (hd ms) \<and> chained ms n)"
  by (cases ms) auto

lemma seg_spans_chained: "chained (seg_spans pos (re_scan m bol t)) (pos + length t)"
proof (induction m bol t arbitrary: pos rule: re_scan.induct)
  case (1 m bol)
  then show ?case by simp
next
  case (2 m bol c cs)
  show ?case
  proof (cases "m bol (c # cs)")
    case None
    with "2.IH"(1)[of "Suc pos"] show ?thesis by simp
  next
    case (Some a)
    obtain n g where a: "a = (n, g)" by (cases a)
    show ?thesis
    proof (cases "0 < n \<and> n \<le> Suc (length cs)")
      case False
      with "2.IH"(3)[OF Some a[symmetric] _, of "Suc pos"] Some a show ?thesis by auto
    next
      case True
      let ?rest = "seg_spans (pos + n) (re_scan m (last (take n (c # cs)) = 10) (drop n (c # cs)))"
      from "2.IH"(2)[OF Some a[symmetric] True, of "pos + n"] True
      have ih: "chained ?rest (pos + Suc (length cs))"
        by (simp add: add.assoc)
      have lo: "pos + n \<le> fst (hd ?rest)" if "?rest \<noteq> []"
      proof -
        from that have "hd ?rest \<in> set ?rest" by (rule hd_in_set)
        then show ?thesis by (rule seg_spans_lower)
      qed
      have "seg_spans pos (re_scan m bol (c # cs)) = (pos, pos + n, g) # ?rest"
        using Some a True by (simp add: min_absorb2)
      then show ?thesis using ih lo True by (simp add: chained_Cons)
    qed
  qed
qed

lemma spans_are_matches:
  "(s, e, g) \<in> set (seg_spans pos (re_scan m bol t)) \<Longrightarrow>
   \<exists>bol'. m bol' (drop (s - pos) t) = Some (e - s, g) \<and> pos \<le> s"
proof (induction m bol t arbitrary: pos rule: re_scan.induct)
  case (1 m bol)
  then show ?case by simp
next
  case (2 m bol c cs)
  have lit: ?case if "(s, e, g) \<in> set (seg_spans (Suc pos) (re_scan m (c = 10) cs))"
    and ih: "\<And>p. (s, e, g) \<in> set (seg_spans p (re_scan m (c = 10) cs)) \<Longrightarrow>
       \<exists>bol'. m bol' (drop (s - p) cs) = Some (e - s, g) \<and> p \<le> s"
  proof -
    from ih[OF that(1)] obtain bol' where
      b: "m bol' (drop (s - Suc pos) cs) = Some (e - s, g)" "Suc pos \<le> s" by blast
    from b(2) have "s - pos = Suc (s - Suc pos)" by simp
    then have "drop (s - pos) (c # cs) = drop (s - Suc pos) cs" by simp
    with b show ?thesis by auto
  qed
  show ?case
  proof (cases "m bol (c # cs)")
    case None
    with "2.prems" have "(s, e, g) \<in> set (seg_spans (Suc pos) (re_scan m (c = 10) cs))" by simp
    then show ?thesis using "2.IH"(1)[OF None] by (rule lit)
  next
    case (Some a)
    obtain n g' where a: "a = (n, g')" by (cases a)
    show ?thesis
    proof (cases "0 < n \<and> n \<le> Suc (length cs)")
      case False
      with "2.prems" Some a
      have "(s, e, g) \<in> set (seg_spans (Suc pos) (re_scan m (c = 10) cs))" by auto
      then show ?thesis using "2.IH"(3)[OF Some a[symmetric] False] by (rule lit)
    next
      case True
      let ?rest = "seg_spans (pos + n) (re_scan m (last (take n (c # cs)) = 10) (drop n (c # cs)))"
      have "seg_spans pos (re_scan m bol (c # cs)) = (pos, pos + n, g') # ?rest"
        using Some a True by (simp add: min_absorb2)
      with "2.prems" have "(s, e, g) = (pos, pos + n, g') \<or> (s, e, g) \<in> set ?rest" by simp
      then show ?thesis
      proof
        assume "(s, e, g) = (pos, pos + n, g')"
        with Some a show ?thesis by auto
      next
        assume "(s, e, g) \<in> set ?rest"
        from "2.IH"(2)[OF Some a[symmetric] True this] obtain bol' where
          b: "m bol' (drop (s - (pos + n)) (drop n (c # cs))) = Some (e - s, g)" "pos + n \<le> s"
          by blast
        from b(2) have "s - (pos + n) + n = s - pos" by simp
        then have "drop (s - (pos + n)) (drop n (c # cs)) = drop (s - pos) (c # cs)"
          by (simp only: drop_drop)
        with b show ?thesis by auto
      qed
    qed
  qed
qed

lemma block_spans_own_match:
  "chained ms n \<Longrightarrow> (s, e, l) \<in> set (block_spans ms n) \<Longrightarrow>
   \<exists>e0 g. (s, e0, g) \<in> set ms \<and> l = strip g \<and> s < e0 \<and> e0 \<le> e"
proof (induction ms n rule: block_spans.induct)
  case (1 n)
  then show ?case by simp
next
  case (2 s' e' g' n)
  then show ?case by auto
next
  case (3 s1 e1 g1 s2 m2 ms n)
  from "3.prems"(2) have "(s, e, l) = (s1, s2, strip g1) \<or>
      (s, e, l) \<in> set (block_spans ((s2, m2) # ms) n)" by simp
  then show ?case
  proof
    assume "(s, e, l) = (s1, s2, strip g1)"
    with "3.prems"(1) show ?thesis by auto
  next
    assume a: "(s, e, l) \<in> set (block_spans ((s2, m2) # ms) n)"
    from "3.prems"(1) have "chained ((s2, m2) # ms) n" by simp
    from "3.IH"[OF this a] show ?thesis by auto
  qed
qed

lemma expect_ci_split:
  "expect_ci p x = Some r \<Longrightarrow>
   \<exists>q. x = q @ r \<and> list_all2 (\<lambda>a b. ci_fold a = ci_fold b) p q"
proof (induction p x rule: expect_ci.induct)
  case (1 t)
  then show ?case by simp
next
  case (2 p ps)
  then show ?case by simp
next
  case (3 p ps c cs)
  from "3.prems" have f: "ci_fold p = ci_fold c" and e: "expect_ci ps cs = Some r"
    by (auto split: if_splits)
  from "3.IH"[OF f e] obtain q where "cs = q @ r" "list_all2 (\<lambda>a b. ci_fold a = ci_fold b) ps q"
    by blast
  with f have "c # cs = (c # q) @ r \<and> list_all2 (\<lambda>a b. ci_fold a = ci_fold b) (p # ps) (c # q)"
    by simp
  then show ?case by blast
qed

lemma expect_ci_append:
  "list_all2 (\<lambda>a b. ci_fold a = ci_fold b) p q \<Longrightarrow> expect_ci p (q @ r) = Some r"
  by (induction p q rule: list_all2_induct) simp_all

lemma expect_ci_self: "expect_ci g (g @ r) = Some r"
  by (rule expect_ci_append) (simp add: list_all2_same)

lemma alpha_not_space: "is_alpha c \<Longrightarrow> \<not> is_space c"
  unfolding is_alpha_def ci_fold_def is_space_def by (auto split: if_splits)

lemma roman_pasal_not_space: "is_roman_pasal c \<Longrightarrow> \<not> is_space c"
  unfolding is_roman_pasal_def ci_fold_def is_space_def ustr_def by (auto split: if_splits)

lemma pasal_number_alt_split:
  assumes "pasal_number_alt x = Some (g, r3)"
  shows "x = g @ r3 \<and> g \<noteq> [] \<and> (\<forall>c\<in>set g. \<not> is_space c)"
proof (cases "takeWhile is_digit x = []")
  case True
  with assms have g: "g = takeWhile is_roman_pasal x" "r3 = dropWhile is_roman_pasal x"
    "takeWhile is_roman_pasal x \<noteq> []"
    by (auto simp: pasal_number_alt_def Let_def split: if_splits)
  have "\<forall>c\<in>set g. is_roman_pasal c" unfolding g(1) by (auto dest: set_takeWhileD)
  then show ?thesis using g roman_pasal_not_space by auto
next
  case False
  have ds: "\<forall>c\<in>set (takeWhile is_digit x). \<not> is_space c"
    using digit_not_space by (auto dest: set_takeWhileD)
  show ?thesis
  proof (cases "dropWhile is_digit x")
    case Nil
    with assms False have "g = takeWhile is_digit x" "r3 = []"
      by (auto simp: pasal_number_alt_def Let_def)
    moreover from Nil have "x = takeWhile is_digit x"
      by (metis append_Nil2 takeWhile_dropWhile_id)
    ultimately show ?thesis using False ds by auto
  next
    case (Cons c cs)
    have x: "x = takeWhile is_digit x @ c # cs"
      using Cons by (metis takeWhile_dropWhile_id)
    show ?thesis
    proof (cases "is_alpha c")
      case True
      with assms False Cons have "g = takeWhile is_digit x @ [c]" "r3 = cs"
        by (auto simp: pasal_number_alt_def Let_def)
      then show ?thesis using x ds alpha_not_space[OF True] by auto
    next
      case na: False
      with assms False Cons have "g = takeWhile is_digit x" "r3 = c # cs"
        by (auto simp: pasal_number_alt_def Let_def)
      then show ?thesis using x ds False by auto
    qed
  qed
qed

lemma eol_backtrack_some:
  "j \<le> k \<Longrightarrow> at_eol (drop j t) \<Longrightarrow> \<exists>n. eol_backtrack k t = Some n"
proof (induction k t rule: eol_backtrack.induct)
  case (1 t)
  then show ?case by simp
next
  case (2 k t)
  show ?case
  proof (cases "at_eol (drop (Suc k) t)")
    case True
    then show ?thesis by simp
  next
    case False
    with "2.prems" have "j \<le> k" by (cases "j = Suc k") auto
    from "2.IH"[OF False this "2.prems"(2)] False show ?thesis by simp
  qed
qed

lemma eol_backtrack_eol: "eol_backtrack k t = Some j \<Longrightarrow> at_eol (drop j t)"
  by (induction k t rule: eol_backtrack.induct) (auto split: if_splits)

lemma takeWhile_prefix:
  assumes "prefix q r" and "\<exists>c\<in>set q. \<not> P c"
  shows "takeWhile P q = takeWhile P r"
proof -
  from assms(1) obtain z where r: "r = q @ z" by (auto simp: prefix_def)
  from assms(2) obtain c where c: "c \<in> set q" "\<not> P c" by blast
  show ?thesis unfolding r using c by (simp add: takeWhile_append1[of c q P z])
qed

text \<open>
  \<open>\s*$\<close> still matches when the text is cut somewhere after the match and trimmed at
  its end.
\<close>

lemma ws_eol_prefix:
  assumes "ws_eol r = Some j" and "prefix q r" and "q = [] \<or> \<not> is_space (last q)"
  shows "\<exists>n. ws_eol q = Some n"
proof (cases "q = []")
  case True
  then show ?thesis by (simp add: ws_eol_def at_eol_def)
next
  case False
  with assms(3) have ls: "\<not> is_space (last q)" by simp
  then have ex: "\<exists>c\<in>set q. \<not> is_space c" using False last_in_set by blast
  have tw: "takeWhile is_space q = takeWhile is_space r"
    using assms(2) ex by (rule takeWhile_prefix)
  from assms(1) have j: "j \<le> length (takeWhile is_space r)" and eol: "at_eol (drop j r)"
    unfolding ws_eol_def by (auto dest: eol_backtrack_le eol_backtrack_eol)
  have "length (takeWhile is_space q) < length q"
  proof (rule ccontr)
    assume "\<not> length (takeWhile is_space q) < length q"
    then have "takeWhile is_space q = q"
      by (metis length_takeWhile_le le_antisym not_le_imp_less takeWhile_eq_take take_all order_refl)
    then have "\<forall>c\<in>set q. is_space c" by (metis set_takeWhileD)
    with ex show False by blast
  qed
  with j tw have jq: "j < length q" by simp
  from assms(2) obtain z where r: "r = q @ z" by (auto simp: prefix_def)
  have "drop j r = drop j q @ z" using jq by (simp add: r)
  moreover have "drop j q \<noteq> []" using jq by simp
  ultimately have "hd (drop j r) = hd (drop j q)" by simp
  with eol \<open>drop j q \<noteq> []\<close> \<open>drop j r = drop j q @ z\<close> have "at_eol (drop j q)"
    by (cases "drop j q") (auto simp: at_eol_def)
  from eol_backtrack_some[OF _ this, of "length (takeWhile is_space q)"] j tw
  show ?thesis by (simp add: ws_eol_def)
qed

lemma rstrip_append:
  assumes "a \<noteq> []" and "\<not> is_space (last a)"
  shows "rstrip (a @ z) = a @ rstrip z"
proof -
  obtain w where w: "z = rstrip z @ w" "\<forall>c\<in>set w. is_space c" using rstrip_decomp by blast
  have fx: "rstrip (a @ rstrip z) = a @ rstrip z"
  proof (rule rstrip_fixed)
    show "a @ rstrip z = [] \<or> \<not> is_space (last (a @ rstrip z))"
      using assms rstrip_last[of z] by (cases "rstrip z = []") simp_all
  qed
  have "rev (a @ z) = rev w @ rev (a @ rstrip z)" by (subst w(1)) simp
  moreover have "\<forall>c\<in>set (rev w). is_space c" using w(2) by simp
  ultimately have "dropWhile is_space (rev (a @ z)) = dropWhile is_space (rev (a @ rstrip z))"
    by (simp only: dropWhile_append2) 
  then have "rstrip (a @ z) = rstrip (a @ rstrip z)" by (simp add: rstrip_def)
  with fx show ?thesis by simp
qed

text \<open>
  The header pattern of a block matches at the start of the block's span, cut at any
  place after the match of the Pasal pattern and trimmed.
\<close>

lemma header_matches_own_line:
  assumes "PASAL_ANY_RE bol t = Some (k, g)" and "k \<le> m"
  shows "\<exists>n. 0 < n \<and> pasal_header_re (strip g) True (strip (take m t)) = Some (n, [])"
proof -
  from assms(1) obtain r1 r3 j where
    e1: "expect_ci (ustr ''Pasal'') (skip_ws t) = Some r1"
    and w2: "takeWhile is_space r1 \<noteq> []"
    and e2: "pasal_number_alt (skip_ws r1) = Some (g, r3)"
    and e3: "ws_eol r3 = Some j"
    and k: "k = length t - length r3 + j"
    by (auto simp: PASAL_ANY_RE_def split: option.splits if_splits)
  from expect_ci_split[OF e1] obtain P where
    P: "skip_ws t = P @ r1" "list_all2 (\<lambda>a b. ci_fold a = ci_fold b) (ustr ''Pasal'') P"
    by blast
  from P(2) have "length P = length (ustr ''Pasal'')" by (simp add: list_all2_lengthD)
  then have Pne: "P \<noteq> []" by (auto simp: ustr_def)
  have hP: "\<not> is_space (hd P)" using skip_ws_head[of t] P(1) Pne by simp
  define ws1 where "ws1 = takeWhile is_space t"
  define ws2 where "ws2 = takeWhile is_space r1"
  have sp1: "\<forall>c\<in>set ws1. is_space c" and sp2: "\<forall>c\<in>set ws2. is_space c"
    unfolding ws1_def ws2_def by (auto dest: set_takeWhileD)
  have t1: "t = ws1 @ P @ r1"
    unfolding ws1_def using P(1) by (metis skip_ws_def takeWhile_dropWhile_id)
  have r1: "r1 = ws2 @ skip_ws r1" unfolding ws2_def by (simp add: skip_ws_def)
  from pasal_number_alt_split[OF e2] have
    g: "skip_ws r1 = g @ r3" "g \<noteq> []" "\<forall>c\<in>set g. \<not> is_space c" by simp_all
  have hg: "\<not> is_space (hd g)" and lg: "\<not> is_space (last g)"
    using g(2,3) by (simp_all add: hd_in_set last_in_set)
  let ?A = "ws1 @ P @ ws2 @ g"
  have t: "t = ?A @ r3" using t1 r1 g(1) by simp
  have "length ?A \<le> m" using assms(2) k by (subst (asm) t) simp
  then have "take m t = ?A @ take (m - length ?A) r3" by (subst t) (simp add: add.assoc)
  define z where "z = take (m - length ?A) r3"
  have tk: "take m t = ws1 @ (P @ ws2 @ g) @ z"
    using \<open>take m t = ?A @ take (m - length ?A) r3\<close> by (simp add: z_def)
  have "dropWhile is_space ((P @ ws2 @ g) @ z) = (P @ ws2 @ g) @ z"
    using Pne hP by (cases P) auto
  then have ls: "lstrip (take m t) = (P @ ws2 @ g) @ z"
    unfolding tk lstrip_def using sp1 by (simp only: dropWhile_append2) 
  have "rstrip ((P @ ws2 @ g) @ z) = (P @ ws2 @ g) @ rstrip z"
    by (rule rstrip_append) (use g(2) lg in simp_all)
  then have b0: "strip (take m t) = P @ ws2 @ g @ rstrip z"
    by (simp add: strip_def ls)
  let ?q = "rstrip z"
  \<comment> \<open>the header pattern on the trimmed span\<close>
  have s0: "skip_ws (P @ ws2 @ g @ ?q) = P @ ws2 @ g @ ?q"
    by (rule skip_ws_fixed) (use Pne hP in simp)
  have x1: "expect_ci (ustr ''Pasal'') (P @ ws2 @ g @ ?q) = Some (ws2 @ g @ ?q)"
    using P(2) by (rule expect_ci_append)
  have "ws2 \<noteq> []" using w2 by (simp add: ws2_def)
  then have "is_space (hd ws2)" using sp2 by (simp add: hd_in_set)
  then have x2: "takeWhile is_space (ws2 @ g @ ?q) \<noteq> []"
    using \<open>ws2 \<noteq> []\<close> by (cases ws2) auto
  have "dropWhile is_space (g @ ?q) = g @ ?q" using g(2) hg by (cases g) auto
  then have x3: "skip_ws (ws2 @ g @ ?q) = g @ ?q"
    unfolding skip_ws_def using sp2 by (simp only: dropWhile_append2)
  have sg: "strip g = g"
    by (rule strip_fixed) (use g(2) hg lg in \<open>simp add: trimmed_def\<close>)
  have x4: "expect_ci g (g @ ?q) = Some ?q" by (rule expect_ci_self)
  have "prefix ?q z" by (rule rstrip_prefix)
  moreover have "prefix z r3" unfolding z_def by (rule take_is_prefix)
  ultimately have "prefix ?q r3" by (rule prefix_order.order_trans)
  from ws_eol_prefix[OF e3 this rstrip_last] obtain n' where x5: "ws_eol ?q = Some n'" by blast
  have "pasal_header_re (strip g) True (strip (take m t)) =
      Some (length (P @ ws2 @ g @ ?q) - length ?q + n', [])"
    unfolding b0 sg pasal_header_re_def s0 x1 using x2 by (simp add: x3 x4 x5)
  moreover have "0 < length (P @ ws2 @ g @ ?q) - length ?q + n'" using Pne by simp
  ultimately show ?thesis by blast
qed

lemma own_header_removed:
  assumes "(s, e, l) \<in> set (article_spans raw)"
  shows "\<exists>n. 0 < n \<and> pasal_header_re l True (strip (slice raw s e)) = Some (n, []) \<and>
           re_sub (pasal_header_re l) [] (strip (slice raw s e)) =
             concat (map (sub_seg [])
               (re_scan (pasal_header_re l) (last (take n (strip (slice raw s e))) = 10)
                  (drop n (strip (slice raw s e)))))"
proof -
  let ?ms = "re_finditer PASAL_ANY_RE raw"
  have ch: "chained ?ms (length raw)"
    using seg_spans_chained[of 0 PASAL_ANY_RE True raw] by (simp add: re_finditer_def)
  from block_spans_own_match[OF ch] assms obtain e0 g where
    m: "(s, e0, g) \<in> set ?ms" "l = strip g" "s < e0" "e0 \<le> e"
    unfolding article_spans_def by blast
  from spans_are_matches[of s e0 g 0 PASAL_ANY_RE True raw] m(1) obtain bol' where
    "PASAL_ANY_RE bol' (drop s raw) = Some (e0 - s, g)" by (auto simp: re_finditer_def)
  moreover have "e0 - s \<le> e - s" using m(4) by simp
  ultimately have "\<exists>n. 0 < n \<and>
      pasal_header_re (strip g) True (strip (take (e - s) (drop s raw))) = Some (n, [])"
    by (rule header_matches_own_line)
  then obtain n where
    n: "0 < n" "pasal_header_re l True (strip (slice raw s e)) = Some (n, [])"
    unfolding m(2) slice_def by blast
  let ?b = "strip (slice raw s e)"
  from pasal_header_valid[OF n(2)] have v: "n \<le> length ?b" by simp
  with n(1) obtain c cs where b: "?b = c # cs" by (cases ?b) auto
  have "re_scan (pasal_header_re l) True ?b =
      Hit (take n ?b) [] # re_scan (pasal_header_re l) (last (take n ?b) = 10) (drop n ?b)"
    using n v unfolding b by simp
  then have "re_sub (pasal_header_re l) [] ?b =
      concat (map (sub_seg []) (re_scan (pasal_header_re l) (last (take n ?b) = 10) (drop n ?b)))"
    by (simp add: re_sub_def)
  with n show ?thesis by blast
qed

text \<open>
  Claim C6, as amended. The record builder makes exactly one row for each block, in order:
  a Pasal row without ayat number, titled \<open>Pasal\<close> and the label, with the labels of the
  enclosing buku, bab and bagian of the block and the cleaned text of the block. For a
  document, the text of a block is made from the block's slice of the text: the slice is
  trimmed, the matches of the block's header pattern are removed, the rest is trimmed
  again, and each run of blanks and tabs in it becomes one blank. The trimmed slice
  starts with a match of the header pattern, the block's own header line, so that
  line is not in the text of the block.
\<close>

theorem record_builder_one_per_block:
  "map section_type (build_loop L c blocks []) = map (\<lambda>b. ustr ''PASAL'') blocks \<and>
   map ayat_number (build_loop L c blocks []) = map (\<lambda>b. None) blocks \<and>
   map title (build_loop L c blocks []) = map (\<lambda>b. ustr ''Pasal '' @ blk_pasal_number b) blocks \<and>
   map pasal_number (build_loop L c blocks []) = map blk_pasal_number blocks \<and>
   map buku (build_loop L c blocks []) = map (\<lambda>b. tag_label (blk_buku b)) blocks \<and>
   map bab (build_loop L c blocks []) = map (\<lambda>b. tag_label (blk_bab b)) blocks \<and>
   map bagian (build_loop L c blocks []) = map (\<lambda>b. tag_label (blk_bagian b)) blocks \<and>
   map text_body (build_loop L c blocks []) = map (\<lambda>b. minimal_clean L (blk_text b)) blocks \<and>
   map text_body (build_records_per_pdf L c raw_text) =
     (if strip raw_text = [] then []
      else map (\<lambda>(s, e, l). minimal_clean L (re_sub blanks1_re [32]
                  (strip (re_sub (pasal_header_re l) [] (strip (slice raw_text s e))))))
             (article_spans raw_text)) \<and>
   (\<forall>(s, e, l)\<in>set (article_spans raw_text).
      \<exists>n. 0 < n \<and> pasal_header_re l True (strip (slice raw_text s e)) = Some (n, []) \<and>
          re_sub (pasal_header_re l) [] (strip (slice raw_text s e)) =
            concat (map (sub_seg [])
              (re_scan (pasal_header_re l) (last (take n (strip (slice raw_text s e))) = 10)
                 (drop n (strip (slice raw_text s e))))))"
proof -
  have rows: "map section_type (build_loop L c blocks []) = map (\<lambda>b. ustr ''PASAL'') blocks"
    "map ayat_number (build_loop L c blocks []) = map (\<lambda>b. None) blocks"
    "map title (build_loop L c blocks []) = map (\<lambda>b. ustr ''Pasal '' @ blk_pasal_number b) blocks"
    "map pasal_number (build_loop L c blocks []) = map blk_pasal_number blocks"
    "map buku (build_loop L c blocks []) = map (\<lambda>b. tag_label (blk_buku b)) blocks"
    "map bab (build_loop L c blocks []) = map (\<lambda>b. tag_label (blk_bab b)) blocks"
    "map bagian (build_loop L c blocks []) = map (\<lambda>b. tag_label (blk_bagian b)) blocks"
    "map text_body (build_loop L c blocks []) = map (\<lambda>b. minimal_clean L (blk_text b)) blocks"
    by (simp_all add: build_loop_map build_record_def comp_def)
  have doc: "map text_body (build_records_per_pdf L c raw_text) =
     (if strip raw_text = [] then []
      else map (\<lambda>(s, e, l). minimal_clean L (re_sub blanks1_re [32]
                  (strip (re_sub (pasal_header_re l) [] (strip (slice raw_text s e))))))
             (article_spans raw_text))"
    by (auto simp add: build_loop_map build_record_def comp_def build_records_per_pdf_def
        detect_structure_def block_body_def Let_def split_def strip_def lstrip_def rstrip_def)
  have hdr: "\<forall>(s, e, l)\<in>set (article_spans raw_text).
      \<exists>n. 0 < n \<and> pasal_header_re l True (strip (slice raw_text s e)) = Some (n, []) \<and>
          re_sub (pasal_header_re l) [] (strip (slice raw_text s e)) =
            concat (map (sub_seg [])
              (re_scan (pasal_header_re l) (last (take n (strip (slice raw_text s e))) = 10)
                 (drop n (strip (slice raw_text s e)))))"
    using own_header_removed by blast
  from rows doc hdr show ?thesis by (intro conjI)
qed

theorem record_builder_one_per_block_witness:
  "article_spans (ustr ''Pasal 1'' @ [10, 97, 9, 98]) = [(0, 11, ustr ''1'')] \<and>
   (\<exists>n. 0 < n \<and>
      pasal_header_re (ustr ''1'') True (strip (slice (ustr ''Pasal 1'' @ [10, 97, 9, 98]) 0 11)) =
        Some (n, [])) \<and>
   map text_body (build_records_per_pdf example_lib cfg_x (ustr ''Pasal 1'' @ [10, 97, 9, 98])) =
     [ustr ''a b'']"
proof -
  let ?raw = "ustr ''Pasal 1'' @ [10, 97, 9, 98]"
  have a: "article_spans ?raw = [(0, 11, ustr ''1'')]"
    by (simp add: text_defs scan_defs flow_defs)
  have b: "map text_body (build_records_per_pdf example_lib cfg_x ?raw) = [ustr ''a b'']"
    by (simp add: text_defs scan_defs flow_defs)
  from record_builder_one_per_block[of example_lib cfg_x "[]" ?raw]
  have "\<forall>(s, e, l)\<in>set (article_spans ?raw).
      \<exists>n. 0 < n \<and> pasal_header_re l True (strip (slice ?raw s e)) = Some (n, []) \<and>
          re_sub (pasal_header_re l) [] (strip (slice ?raw s e)) =
            concat (map (sub_seg [])
              (re_scan (pasal_header_re l) (last (take n (strip (slice ?raw s e))) = 10)
                 (drop n (strip (slice ?raw s e)))))"
    by blast
  then have "\<exists>n. 0 < n \<and>
      pasal_header_re (ustr ''1'') True (strip (slice ?raw 0 11)) = Some (n, [])"
    unfolding a by auto
  with a b show ?thesis by simp
qed

text \<open>
  Claim C6 as stated fails: the text of a row is not the cleaned slice without its
  header line, since a tab in the slice has become a blank before cleaning, and
  cleaning itself keeps a single tab.
\<close>

theorem block_text_is_not_the_cleaned_span:
  "article_spans (ustr ''Pasal 1'' @ [10, 97, 9, 98]) = [(0, 11, ustr ''1'')] \<and>
   slice (ustr ''Pasal 1'' @ [10, 97, 9, 98]) 0 11 = ustr ''Pasal 1'' @ [10, 97, 9, 98] \<and>
   map text_body (build_records_per_pdf example_lib cfg_x (ustr ''Pasal 1'' @ [10, 97, 9, 98])) =
     [[97, 32, 98]] \<and>
   minimal_clean example_lib [10, 97, 9, 98] = [97, 9, 98] \<and>
   minimal_clean example_lib [97, 9, 98] = [97, 9, 98]"
  by (simp add: text_defs scan_defs flow_defs)

subsection \<open>Examples\<close>

text \<open>
  Digits and letters outside ASCII: the Arabic-Indic digit one is a digit of the Pasal
  pattern and of the marker pattern, and the long s is matched by the \<open>s\<close> of \<open>Pasal\<close>.
\<close>

lemma digits_and_letters_outside_ascii:
  "PASAL_ANY_RE True (ustr ''Pasal '' @ [1633]) = Some (7, [1633]) \<and>
   PASAL_ANY_RE True [80, 97, 383, 97, 108, 32, 49] = Some (7, [49]) \<and>
   AYAT_SPLIT_RE True [40, 1633, 41] = Some (3, [1633]) \<and>
   re_split AYAT_SPLIT_RE (ustr ''x ('' @ [1633] @ ustr '') foo (1)'') =
     [ustr ''x '', [1633], ustr '' foo '', ustr ''1'', []]"
  by (simp add: text_defs scan_defs ayat_defs)


lemma end_to_end_example:
  "main_flow example_lib [(cfg_x, ustr ''BAB I KETENTUAN UMUM'' @ [10] @ ustr ''Pasal 1'' @ [10] @
      ustr ''(1) satu.'' @ [10] @ ustr ''(2) dua.'' @ [10] @ ustr ''Pasal 2'' @ [10] @
      ustr ''Cukup jelas.'')] =
   Inr [(pasal_row (ustr ''satu.''))\<lparr>section_type := ustr ''AYAT'',
          ayat_number := Some (ustr ''1''), bab := Some (ustr ''I'')\<rparr>,
        (pasal_row (ustr ''dua.''))\<lparr>section_type := ustr ''AYAT'',
          ayat_number := Some (ustr ''2''), bab := Some (ustr ''I'')\<rparr>]"
  by (simp add: text_defs scan_defs flow_defs ayat_defs explode_loop.simps)

lemma drop_penjelasan_examples:
  "drop_penjelasan_df example_lib
     [(pasal_row (ustr ''isi''))\<lparr>title := ustr ''Penjelasan Pasal 5''\<rparr>,
      pasal_row (ustr '' Cukup jelas.''),
      pasal_row (ustr ''Tidak cukup jelas, lihat ayat (2)'')] =
   [pasal_row (ustr ''Tidak cukup jelas, lihat ayat (2)'')]"
  by (simp add: text_defs flow_defs pasal_row_def)

end
